theory Spec2Isabelle
  imports Main "HOL-Library.AList" "HOL-Library.Sublist" "HOL-Library.Multiset"
begin

section \<open>The breach-protocol solver of \<^verbatim>\<open>cp2077solver/solver.py\<close>\<close>

text \<open>
  The development follows \<^verbatim>\<open>src/cp2077solver/solver.py\<close>. Every dataclass is a record
  with the field names of the source, the two \<^verbatim>\<open>IntEnum\<close>s are datatypes, and a Python
  exception is the left summand of a result. Two records of the source share a field name
  (\<^verbatim>\<open>cells\<close>, \<^verbatim>\<open>steps\<close>); the fields are then written with their record's name in front.
  Indices produced by \<^verbatim>\<open>enumerate\<close> and by \<^verbatim>\<open>len\<close> are natural numbers; the buffer size, the
  priorities and the per-sequence counters are Python integers, since the source subtracts
  from them and negates them.
\<close>

subsection \<open>Python primitives\<close>

datatype py_error = IndexError | ValueError

text \<open>\<^verbatim>\<open>xs[i]\<close> on a list: a negative index counts from the right end.\<close>

definition py_index :: "'a list \<Rightarrow> int \<Rightarrow> py_error + 'a" where
  "py_index xs i =
     (if 0 \<le> i \<and> i < int (length xs) then Inr (xs ! nat i)
      else if i < 0 \<and> - int (length xs) \<le> i then Inr (xs ! nat (int (length xs) + i))
      else Inl IndexError)"

text \<open>\<^verbatim>\<open>max(xs)\<close> raises \<^verbatim>\<open>ValueError\<close> on an empty list.\<close>

definition py_max :: "int list \<Rightarrow> py_error + int" where
  "py_max xs = (case xs of [] \<Rightarrow> Inl ValueError | x # rest \<Rightarrow> Inr (fold max rest x))"

text \<open>
  A list comprehension whose element expression may raise: the first exception, in
  iteration order, aborts the comprehension.
\<close>

fun comprehend :: "('a \<Rightarrow> py_error + 'b) \<Rightarrow> 'a list \<Rightarrow> py_error + 'b list" where
  "comprehend f [] = Inr []"
| "comprehend f (x # xs) =
     (case f x of
        Inl e \<Rightarrow> Inl e
      | Inr y \<Rightarrow> (case comprehend f xs of Inl e \<Rightarrow> Inl e | Inr ys \<Rightarrow> Inr (y # ys)))"

subsection \<open>Data model\<close>

type_synonym CellValueType = string

record CodeMatrix =
  cells :: "CellValueType list list"

record UploadSequence =
  cells :: "CellValueType list"
  priority :: int

record GameSpecification =
  code_matrix :: CodeMatrix
  upload_sequences :: "UploadSequence list"
  buffer_size :: int

record SolutionStep =
  "value" :: CellValueType
  row_idx :: nat
  col_idx :: nat

record Solution =
  steps :: "SolutionStep list"

datatype SolutionStrategy = FIND_FIRST_SOLUTION | FIND_ALL_SOLUTIONS

datatype CellChoiceDirection = ROW | COLUMN

text \<open>
  \<^verbatim>\<open>SearchStackItem.steps\<close> is a \<^verbatim>\<open>dict\<close> from step to step index. Python dictionaries keep
  insertion order, and the source sorts the items afterwards, so the dictionary is an
  association list in insertion order; \<^const>\<open>AList.update\<close> is the dictionary store (it
  overwrites an existing key in place and appends a new one).
\<close>

record SearchStackItem =
  steps :: "(SolutionStep \<times> nat) list"
  current_step :: SolutionStep
  incomplete_sequence_length :: "int list"
  next_pick_direction :: CellChoiceDirection

subsection \<open>\<^verbatim>\<open>CodeMatrix\<close>\<close>

text \<open>
  The dataclass has no \<^verbatim>\<open>__post_init__\<close>: its generated constructor stores the argument
  and runs no check, so it has no failing branch.
\<close>

definition CodeMatrix_init :: "CellValueType list list \<Rightarrow> py_error + CodeMatrix" where
  "CodeMatrix_init rows = Inr \<lparr>CodeMatrix.cells = rows\<rparr>"

definition CodeMatrix_size :: "CodeMatrix \<Rightarrow> nat" where
  "CodeMatrix_size m = length (CodeMatrix.cells m)"

definition iterate_row :: "CodeMatrix \<Rightarrow> nat \<Rightarrow> py_error + (nat \<times> CellValueType) list" where
  "iterate_row m r =
     (if r < length (CodeMatrix.cells m) then Inr (enumerate 0 (CodeMatrix.cells m ! r))
      else Inl IndexError)"

text \<open>
  \<^verbatim>\<open>iterate_col\<close> enumerates a generator that reads \<^verbatim>\<open>row[col_idx]\<close> of every row; the
  caller consumes it completely, so a row that is too short raises in the caller.
\<close>

definition iterate_col :: "CodeMatrix \<Rightarrow> nat \<Rightarrow> py_error + (nat \<times> CellValueType) list" where
  "iterate_col m c =
     (if list_all (\<lambda>row. c < length row) (CodeMatrix.cells m)
      then Inr (enumerate 0 (map (\<lambda>row. row ! c) (CodeMatrix.cells m)))
      else Inl IndexError)"

subsection \<open>The depth-first search of \<^verbatim>\<open>_solve_internal\<close>\<close>

text \<open>The counter of one upload sequence in a state seeded with \<open>cell_value\<close>.\<close>

definition initial_incomplete_length :: "CellValueType \<Rightarrow> UploadSequence \<Rightarrow> py_error + int" where
  "initial_incomplete_length cell_value upload_sequence =
     (case py_index (UploadSequence.cells upload_sequence) 0 of
        Inl e \<Rightarrow> Inl e
      | Inr first \<Rightarrow>
          Inr (int (length (UploadSequence.cells upload_sequence))
               - (if first = cell_value then 1 else 0)))"

definition initial_stack_item ::
  "GameSpecification \<Rightarrow> nat \<times> CellValueType \<Rightarrow> py_error + SearchStackItem" where
  "initial_stack_item spec = (\<lambda>(col_idx, cell_value).
     (case comprehend (initial_incomplete_length cell_value) (upload_sequences spec) of
        Inl e \<Rightarrow> Inl e
      | Inr lens \<Rightarrow>
          Inr \<lparr>SearchStackItem.steps =
                 [(\<lparr>value = cell_value, row_idx = 0, col_idx = col_idx\<rparr>, 0)],
               current_step = \<lparr>value = cell_value, row_idx = 0, col_idx = col_idx\<rparr>,
               incomplete_sequence_length = lens,
               next_pick_direction = COLUMN\<rparr>))"

text \<open>
  The search stack is a \<^verbatim>\<open>deque\<close> used at its right end only. It is a list whose head is
  the right end: \<^verbatim>\<open>append\<close> is \<open>#\<close>, \<^verbatim>\<open>pop\<close> takes the head, and appending
  \<open>x\<^sub>1, \<dots>, x\<^sub>n\<close> in turn puts \<open>rev [x\<^sub>1, \<dots>, x\<^sub>n]\<close> in front.
\<close>

definition initial_search_stack :: "GameSpecification \<Rightarrow> py_error + SearchStackItem list" where
  "initial_search_stack spec =
     (case iterate_row (code_matrix spec) 0 of
        Inl e \<Rightarrow> Inl e
      | Inr row \<Rightarrow>
          (case comprehend (initial_stack_item spec) row of
             Inl e \<Rightarrow> Inl e
           | Inr items \<Rightarrow> Inr (rev items)))"

text \<open>The steps of an accepted state, sorted by their index (\<^verbatim>\<open>sorted\<close> is stable).\<close>

definition make_solution :: "SearchStackItem \<Rightarrow> Solution" where
  "make_solution current_search_point =
     \<lparr>Solution.steps = map fst (sort_key snd (SearchStackItem.steps current_search_point))\<rparr>"

definition next_steps :: "GameSpecification \<Rightarrow> SearchStackItem \<Rightarrow> py_error + SolutionStep list" where
  "next_steps spec current_search_point =
     (let current_col_idx = col_idx (current_step current_search_point);
          current_row_idx = row_idx (current_step current_search_point)
      in if next_pick_direction current_search_point = ROW then
           (case iterate_row (code_matrix spec) current_row_idx of
              Inl e \<Rightarrow> Inl e
            | Inr row \<Rightarrow>
                Inr (map (\<lambda>(col_idx, cell_value).
                            \<lparr>value = cell_value, row_idx = current_row_idx, col_idx = col_idx\<rparr>)
                       (filter (\<lambda>(col_idx, cell_value). col_idx \<noteq> current_col_idx) row)))
         else
           (case iterate_col (code_matrix spec) current_col_idx of
              Inl e \<Rightarrow> Inl e
            | Inr col \<Rightarrow>
                Inr (map (\<lambda>(row_idx, cell_value).
                            \<lparr>value = cell_value, row_idx = row_idx, col_idx = current_col_idx\<rparr>)
                       (filter (\<lambda>(row_idx, cell_value). row_idx \<noteq> current_row_idx) col))))"

definition flip_direction :: "CellChoiceDirection \<Rightarrow> CellChoiceDirection" where
  "flip_direction d = (if d = ROW then COLUMN else ROW)"

text \<open>The counter of one upload sequence after \<open>step_value\<close> is appended to the path.\<close>

definition next_incomplete_length :: "CellValueType \<Rightarrow> UploadSequence \<times> int \<Rightarrow> py_error + int" where
  "next_incomplete_length step_value = (\<lambda>(upload_sequence, incomplete_length).
     if incomplete_length = 0 then Inr 0
     else (case py_index (UploadSequence.cells upload_sequence) (- incomplete_length) of
             Inl e \<Rightarrow> Inl e
           | Inr expected \<Rightarrow>
               Inr (if expected = step_value then incomplete_length - 1
                    else int (length (UploadSequence.cells upload_sequence)))))"

definition next_search_point ::
  "GameSpecification \<Rightarrow> SearchStackItem \<Rightarrow> SolutionStep \<Rightarrow> py_error + SearchStackItem" where
  "next_search_point spec current_search_point next_step =
     (case comprehend (next_incomplete_length (value next_step))
             (zip (upload_sequences spec) (incomplete_sequence_length current_search_point)) of
        Inl e \<Rightarrow> Inl e
      | Inr lens \<Rightarrow>
          Inr \<lparr>SearchStackItem.steps =
                 AList.update next_step (length (SearchStackItem.steps current_search_point))
                   (SearchStackItem.steps current_search_point),
               current_step = next_step,
               incomplete_sequence_length = lens,
               next_pick_direction = flip_direction (next_pick_direction current_search_point)\<rparr>)"

text \<open>The states one expansion appends to the stack, in the order they are appended.\<close>

definition next_search_points ::
  "GameSpecification \<Rightarrow> SearchStackItem \<Rightarrow> py_error + SearchStackItem list" where
  "next_search_points spec current_search_point =
     (case next_steps spec current_search_point of
        Inl e \<Rightarrow> Inl e
      | Inr candidates \<Rightarrow>
          comprehend (next_search_point spec current_search_point)
            (filter (\<lambda>next_step. next_step \<notin> set (map fst (SearchStackItem.steps current_search_point)))
               candidates))"

subsection \<open>Facts about comprehensions\<close>

lemma comprehend_sound:
  "comprehend f xs = Inr ys \<Longrightarrow> list_all2 (\<lambda>x y. f x = Inr y) xs ys"
proof (induction xs arbitrary: ys)
  case Nil
  then show ?case by simp
next
  case (Cons x xs)
  from Cons.prems obtain y zs where "f x = Inr y" "comprehend f xs = Inr zs" "ys = y # zs"
    by (auto split: sum.splits)
  with Cons.IH[of zs] show ?case by simp
qed

lemma comprehend_complete:
  "list_all2 (\<lambda>x y. f x = Inr y) xs ys \<Longrightarrow> comprehend f xs = Inr ys"
  by (induction xs ys rule: list_all2_induct) simp_all

lemma comprehend_Inr_iff:
  "comprehend f xs = Inr ys \<longleftrightarrow> list_all2 (\<lambda>x y. f x = Inr y) xs ys"
  using comprehend_sound comprehend_complete by blast

lemma comprehend_member:
  assumes "comprehend f xs = Inr ys" and "y \<in> set ys"
  shows "\<exists>x \<in> set xs. f x = Inr y"
proof -
  from assms(1) have "list_all2 (\<lambda>x y. f x = Inr y) xs ys"
    by (rule comprehend_sound)
  then show ?thesis using assms(2)
    by (induction xs ys rule: list_all2_induct) auto
qed

subsection \<open>The main loop\<close>

text \<open>
  The \<^verbatim>\<open>while search_stack\<close> loop, with the list of solutions found so far as its second
  state component. \<^verbatim>\<open>break\<close> returns, \<^verbatim>\<open>continue\<close> is the recursive call on the rest of
  the stack, and the \<^verbatim>\<open>for next_step\<close> loop appends the new states one after the other.
\<close>

function search_loop ::
  "GameSpecification \<Rightarrow> SolutionStrategy \<Rightarrow> SearchStackItem list \<Rightarrow> Solution list
     \<Rightarrow> py_error + Solution list" where
  "search_loop spec strategy [] solutions = Inr solutions"
| "search_loop spec strategy (current_search_point # search_stack) solutions =
     (if sum_list (incomplete_sequence_length current_search_point) = 0 then
        (if strategy = FIND_FIRST_SOLUTION
         then Inr (solutions @ [make_solution current_search_point])
         else search_loop spec strategy search_stack
                (solutions @ [make_solution current_search_point]))
      else
        (case py_max (incomplete_sequence_length current_search_point) of
           Inl e \<Rightarrow> Inl e
         | Inr longest \<Rightarrow>
             if buffer_size spec - int (length (SearchStackItem.steps current_search_point))
                  < longest
             then search_loop spec strategy search_stack solutions
             else (case next_search_points spec current_search_point of
                     Inl e \<Rightarrow> Inl e
                   | Inr children \<Rightarrow>
                       search_loop spec strategy (rev children @ search_stack) solutions)))"
  by pat_completeness (clarify | rule refl)+

text \<open>
  The loop terminates on every input: a state that is expanded is replaced by states that
  each hold one more cell of the matrix, so the multiset of the numbers of cells not yet on
  a path decreases.
\<close>

definition grid_steps :: "CodeMatrix \<Rightarrow> SolutionStep set" where
  "grid_steps m =
     (\<lambda>(r, c). \<lparr>value = CodeMatrix.cells m ! r ! c, row_idx = r, col_idx = c\<rparr>) `
       (SIGMA r : {..<length (CodeMatrix.cells m)}. {..<length (CodeMatrix.cells m ! r)})"

definition unvisited :: "GameSpecification \<Rightarrow> SearchStackItem \<Rightarrow> nat" where
  "unvisited spec item =
     card (grid_steps (code_matrix spec) - set (map fst (SearchStackItem.steps item)))"

lemma finite_grid_steps: "finite (grid_steps m)"
  by (simp add: grid_steps_def)

lemma grid_stepsI:
  assumes "r < length (CodeMatrix.cells m)" and "c < length (CodeMatrix.cells m ! r)"
    and "v = CodeMatrix.cells m ! r ! c"
  shows "\<lparr>value = v, row_idx = r, col_idx = c\<rparr> \<in> grid_steps m"
  unfolding grid_steps_def using assms by (intro image_eqI[where x = "(r, c)"]) simp_all

lemma iterate_row_member:
  assumes "iterate_row m r = Inr row" and "(c, v) \<in> set row"
  shows "r < length (CodeMatrix.cells m) \<and> c < length (CodeMatrix.cells m ! r)
           \<and> v = CodeMatrix.cells m ! r ! c"
  using assms by (auto simp: iterate_row_def in_set_enumerate_eq split: if_splits)

lemma iterate_col_member:
  assumes "iterate_col m c = Inr col" and "(r, v) \<in> set col"
  shows "r < length (CodeMatrix.cells m) \<and> c < length (CodeMatrix.cells m ! r)
           \<and> v = CodeMatrix.cells m ! r ! c"
  using assms by (auto simp: iterate_col_def in_set_enumerate_eq list_all_length split: if_splits)

lemma next_steps_cases:
  assumes "next_steps spec cur = Inr candidates" and "s \<in> set candidates"
  shows "(next_pick_direction cur = ROW \<and>
            (\<exists>row c v. iterate_row (code_matrix spec) (row_idx (current_step cur)) = Inr row
               \<and> (c, v) \<in> set row \<and> c \<noteq> col_idx (current_step cur)
               \<and> s = \<lparr>value = v, row_idx = row_idx (current_step cur), col_idx = c\<rparr>))
       \<or> (next_pick_direction cur \<noteq> ROW \<and>
            (\<exists>col r v. iterate_col (code_matrix spec) (col_idx (current_step cur)) = Inr col
               \<and> (r, v) \<in> set col \<and> r \<noteq> row_idx (current_step cur)
               \<and> s = \<lparr>value = v, row_idx = r, col_idx = col_idx (current_step cur)\<rparr>))"
proof (cases "next_pick_direction cur = ROW")
  case True
  with assms obtain row where row: "iterate_row (code_matrix spec) (row_idx (current_step cur)) = Inr row"
    and c: "candidates = map (\<lambda>(col_idx, cell_value).
                \<lparr>value = cell_value, row_idx = row_idx (current_step cur), col_idx = col_idx\<rparr>)
              (filter (\<lambda>(c, v). c \<noteq> col_idx (current_step cur)) row)"
    by (auto simp: next_steps_def Let_def split: sum.splits)
  from assms(2) show ?thesis unfolding c using True row by auto
next
  case False
  with assms obtain col where col: "iterate_col (code_matrix spec) (col_idx (current_step cur)) = Inr col"
    and c: "candidates = map (\<lambda>(row_idx, cell_value).
                \<lparr>value = cell_value, row_idx = row_idx, col_idx = col_idx (current_step cur)\<rparr>)
              (filter (\<lambda>(r, v). r \<noteq> row_idx (current_step cur)) col)"
    by (auto simp: next_steps_def Let_def split: sum.splits)
  from assms(2) show ?thesis unfolding c using False col by auto
qed

lemma next_steps_in_grid:
  assumes "next_steps spec cur = Inr candidates" and "s \<in> set candidates"
  shows "s \<in> grid_steps (code_matrix spec)"
  using next_steps_cases[OF assms]
  by (auto dest!: iterate_row_member iterate_col_member intro!: grid_stepsI)

lemma next_search_points_member:
  assumes "next_search_points spec cur = Inr children" and "child \<in> set children"
  shows "\<exists>candidates next_step. next_steps spec cur = Inr candidates \<and> next_step \<in> set candidates
           \<and> next_step \<notin> set (map fst (SearchStackItem.steps cur))
           \<and> next_search_point spec cur next_step = Inr child"
  using assms
  by (auto simp: next_search_points_def split: sum.splits dest!: comprehend_member)

lemma next_search_point_steps:
  assumes "next_search_point spec cur next_step = Inr child"
  shows "SearchStackItem.steps child =
           AList.update next_step (length (SearchStackItem.steps cur)) (SearchStackItem.steps cur)"
  using assms by (auto simp: next_search_point_def split: sum.splits)

lemma unvisited_decreases:
  assumes "next_search_points spec cur = Inr children" and "child \<in> set children"
  shows "unvisited spec child < unvisited spec cur"
proof -
  from next_search_points_member[OF assms] obtain candidates next_step where
    c: "next_steps spec cur = Inr candidates" "next_step \<in> set candidates"
    and fresh: "next_step \<notin> set (map fst (SearchStackItem.steps cur))"
    and child: "next_search_point spec cur next_step = Inr child"
    by blast
  have g: "next_step \<in> grid_steps (code_matrix spec)"
    using c by (rule next_steps_in_grid)
  have "set (map fst (SearchStackItem.steps child))
          = insert next_step (set (map fst (SearchStackItem.steps cur)))"
    using next_search_point_steps[OF child] by (simp add: dom_update)
  then have "grid_steps (code_matrix spec) - set (map fst (SearchStackItem.steps child))
               \<subset> grid_steps (code_matrix spec) - set (map fst (SearchStackItem.steps cur))"
    using g fresh by auto
  then show ?thesis
    unfolding unvisited_def
    by (intro psubset_card_mono) (auto simp: finite_grid_steps)
qed

lemma stack_shrinks:
  "(mset (map f rest), mset (map f (this # rest))) \<in> mult less_than"
proof -
  have "(mset (map f rest) + {#}, mset (map f rest) + {#f this#}) \<in> mult less_than"
    by (rule one_step_implies_mult) simp_all
  then show ?thesis by simp
qed

lemma stack_expands:
  assumes "\<And>c. c \<in> set children \<Longrightarrow> f c < f this"
  shows "(mset (map f (rev children @ rest)), mset (map f (this # rest))) \<in> mult less_than"
proof -
  have "\<forall>k \<in># mset (map f children). \<exists>j \<in># {#f this#}. (k, j) \<in> less_than"
    using assms by auto
  then have "(mset (map f rest) + mset (map f children), mset (map f rest) + {#f this#})
               \<in> mult less_than"
    by (intro one_step_implies_mult) simp_all
  then show ?thesis by (simp add: add.commute)
qed

termination search_loop
proof (relation "inv_image (mult less_than)
         (\<lambda>(spec, strategy, search_stack, solutions). mset (map (unvisited spec) search_stack))",
       goal_cases)
  case 1
  show ?case by (intro wf_inv_image wf_mult wf_less_than)
next
  case 2
  show ?case unfolding in_inv_image prod.case by (rule stack_shrinks)
next
  case 3
  show ?case unfolding in_inv_image prod.case by (rule stack_shrinks)
next
  case (4 spec strategy cur rest solutions longest children)
  show ?case unfolding in_inv_image prod.case
    by (rule stack_expands) (rule unvisited_decreases[OF 4(4)])
qed

text \<open>\<^verbatim>\<open>_solve_internal\<close>: seed the stack, run the loop, sort the solutions by length.\<close>

definition solve_internal :: "GameSpecification \<Rightarrow> SolutionStrategy \<Rightarrow> py_error + Solution list" where
  "solve_internal spec strategy =
     (case initial_search_stack spec of
        Inl e \<Rightarrow> Inl e
      | Inr search_stack \<Rightarrow>
          (case search_loop spec strategy search_stack [] of
             Inl e \<Rightarrow> Inl e
           | Inr solutions \<Rightarrow> Inr (sort_key (\<lambda>sol. length (Solution.steps sol)) solutions)))"

subsection \<open>\<^verbatim>\<open>solve\<close>: discarding the lowest priority\<close>

text \<open>
  The warning that \<^verbatim>\<open>solve\<close> prints before it retries is output only; the model is the
  returned list.
\<close>

text \<open>\<^verbatim>\<open>sorted(list(set(sequence.priority for sequence in spec.upload_sequences)))\<close>\<close>

definition unique_priorities :: "GameSpecification \<Rightarrow> int list" where
  "unique_priorities spec = sort (remdups (map priority (upload_sequences spec)))"

definition higher_priority_sequences :: "GameSpecification \<Rightarrow> UploadSequence list" where
  "higher_priority_sequences spec =
     filter (\<lambda>sequence. priority sequence > unique_priorities spec ! 0) (upload_sequences spec)"

definition updated_spec :: "GameSpecification \<Rightarrow> GameSpecification" where
  "updated_spec spec = spec\<lparr>upload_sequences := higher_priority_sequences spec\<rparr>"

lemma unique_priorities_decrease:
  assumes "1 < length (unique_priorities spec)"
  shows "length (unique_priorities (updated_spec spec)) < length (unique_priorities spec)"
proof -
  let ?ps = "map priority (upload_sequences spec)"
  let ?p0 = "unique_priorities spec ! 0"
  have len: "length (unique_priorities s) = card (set (map priority (upload_sequences s)))" for s
    by (simp add: unique_priorities_def length_remdups_card_conv)
  have "?p0 \<in> set (unique_priorities spec)"
  proof (rule nth_mem)
    from assms show "0 < length (unique_priorities spec)" by arith
  qed
  then have in0: "?p0 \<in> set ?ps"
    by (simp add: unique_priorities_def)
  have "set (map priority (upload_sequences (updated_spec spec))) \<subseteq> set ?ps - {?p0}"
    by (auto simp: updated_spec_def higher_priority_sequences_def)
  with in0 have "set (map priority (upload_sequences (updated_spec spec))) \<subset> set ?ps"
    by blast
  then show ?thesis
    unfolding len by (intro psubset_card_mono) simp_all
qed

function solve :: "GameSpecification \<Rightarrow> SolutionStrategy \<Rightarrow> py_error + Solution list" where
  "solve spec strategy =
     (case solve_internal spec strategy of
        Inl e \<Rightarrow> Inl e
      | Inr solutions \<Rightarrow>
          if solutions = [] then
            (if length (unique_priorities spec) > 1
             then solve (updated_spec spec) strategy
             else Inr solutions)
          else Inr solutions)"
  by pat_completeness (clarify | rule refl)+
termination solve
  by (relation "measure (\<lambda>(spec, strategy). length (unique_priorities spec))")
     (simp_all add: unique_priorities_decrease)

declare solve.simps [simp del]

text \<open>
  The specification whose search result \<^const>\<open>solve\<close> returns: the recursion of \<^const>\<open>solve\<close>
  with the specification, instead of the solutions, as the result.
\<close>

function final_specification :: "GameSpecification \<Rightarrow> SolutionStrategy \<Rightarrow> GameSpecification" where
  "final_specification spec strategy =
     (if solve_internal spec strategy = Inr [] \<and> 1 < length (unique_priorities spec)
      then final_specification (updated_spec spec) strategy
      else spec)"
  by pat_completeness (clarify | rule refl)+
termination final_specification
  by (relation "measure (\<lambda>(spec, strategy). length (unique_priorities spec))")
     (simp_all add: unique_priorities_decrease)

declare final_specification.simps [simp del]

subsection \<open>The search states of one run\<close>

text \<open>
  The states the search constructs: the ones seeded from row 0, and the ones appended when a
  state that is neither accepted nor abandoned is expanded.
\<close>

inductive reachable :: "GameSpecification \<Rightarrow> SearchStackItem \<Rightarrow> bool" for spec where
  seed: "initial_search_stack spec = Inr search_stack \<Longrightarrow> item \<in> set search_stack
           \<Longrightarrow> reachable spec item"
| child: "reachable spec parent
           \<Longrightarrow> sum_list (incomplete_sequence_length parent) \<noteq> 0
           \<Longrightarrow> py_max (incomplete_sequence_length parent) = Inr longest
           \<Longrightarrow> \<not> buffer_size spec - int (length (SearchStackItem.steps parent)) < longest
           \<Longrightarrow> next_search_points spec parent = Inr children
           \<Longrightarrow> item \<in> set children
           \<Longrightarrow> reachable spec item"

code_pred reachable .

section \<open>Invariants of the search states\<close>

subsection \<open>The dictionary of steps\<close>

definition path :: "SearchStackItem \<Rightarrow> SolutionStep list" where
  "path item = map fst (SearchStackItem.steps item)"

lemma update_fresh:
  "k \<notin> set (map fst al) \<Longrightarrow> AList.update k v al = al @ [(k, v)]"
  by (induction al) auto

lemma next_search_points_child:
  assumes "next_search_points spec parent = Inr children" and "child \<in> set children"
  obtains candidates next_step lens where
    "next_steps spec parent = Inr candidates" "next_step \<in> set candidates"
    "next_step \<notin> set (path parent)"
    "comprehend (next_incomplete_length (value next_step))
       (zip (upload_sequences spec) (incomplete_sequence_length parent)) = Inr lens"
    "child = \<lparr>SearchStackItem.steps =
                 SearchStackItem.steps parent @ [(next_step, length (SearchStackItem.steps parent))],
               current_step = next_step,
               incomplete_sequence_length = lens,
               next_pick_direction = flip_direction (next_pick_direction parent)\<rparr>"
proof -
  from next_search_points_member[OF assms] obtain candidates next_step where
    c: "next_steps spec parent = Inr candidates" "next_step \<in> set candidates"
    and fresh: "next_step \<notin> set (map fst (SearchStackItem.steps parent))"
    and child: "next_search_point spec parent next_step = Inr child"
    by blast
  from child obtain lens where
    lens: "comprehend (next_incomplete_length (value next_step))
       (zip (upload_sequences spec) (incomplete_sequence_length parent)) = Inr lens"
    and eq: "child = \<lparr>SearchStackItem.steps =
                 AList.update next_step (length (SearchStackItem.steps parent))
                   (SearchStackItem.steps parent),
               current_step = next_step,
               incomplete_sequence_length = lens,
               next_pick_direction = flip_direction (next_pick_direction parent)\<rparr>"
    by (auto simp: next_search_point_def split: sum.splits)
  show thesis
    using c fresh lens eq by (intro that[of candidates next_step lens]) (simp_all add: path_def update_fresh)
qed

lemma initial_search_stack_item:
  assumes "initial_search_stack spec = Inr search_stack" and "item \<in> set search_stack"
  obtains row c v lens where
    "iterate_row (code_matrix spec) 0 = Inr row" "(c, v) \<in> set row"
    "comprehend (initial_incomplete_length v) (upload_sequences spec) = Inr lens"
    "item = \<lparr>SearchStackItem.steps = [(\<lparr>value = v, row_idx = 0, col_idx = c\<rparr>, 0)],
              current_step = \<lparr>value = v, row_idx = 0, col_idx = c\<rparr>,
              incomplete_sequence_length = lens,
              next_pick_direction = COLUMN\<rparr>"
proof -
  from assms obtain row items where
    row: "iterate_row (code_matrix spec) 0 = Inr row"
    and items: "comprehend (initial_stack_item spec) row = Inr items"
    and "search_stack = rev items"
    by (auto simp: initial_search_stack_def split: sum.splits)
  with assms(2) have "item \<in> set items" by simp
  from comprehend_member[OF items this] obtain cv where
    cv: "cv \<in> set row" "initial_stack_item spec cv = Inr item" by blast
  obtain c v where [simp]: "cv = (c, v)" by (cases cv)
  from cv(2) obtain lens where
    "comprehend (initial_incomplete_length v) (upload_sequences spec) = Inr lens"
    "item = \<lparr>SearchStackItem.steps = [(\<lparr>value = v, row_idx = 0, col_idx = c\<rparr>, 0)],
              current_step = \<lparr>value = v, row_idx = 0, col_idx = c\<rparr>,
              incomplete_sequence_length = lens,
              next_pick_direction = COLUMN\<rparr>"
    by (auto simp: initial_stack_item_def split: sum.splits)
  with row cv(1) show thesis by (intro that[of row c v lens]) simp_all
qed

definition steps_ok :: "SearchStackItem \<Rightarrow> bool" where
  "steps_ok item \<longleftrightarrow>
     SearchStackItem.steps item \<noteq> []
     \<and> map snd (SearchStackItem.steps item) = [0..<length (SearchStackItem.steps item)]
     \<and> distinct (path item)
     \<and> current_step item = last (path item)"

lemma reachable_steps_ok: "reachable spec item \<Longrightarrow> steps_ok item"
proof (induction rule: reachable.induct)
  case (seed search_stack item)
  from seed show ?case
  proof (rule initial_search_stack_item)
    fix row c v lens
    assume "item = \<lparr>SearchStackItem.steps = [(\<lparr>value = v, row_idx = 0, col_idx = c\<rparr>, 0)],
              current_step = \<lparr>value = v, row_idx = 0, col_idx = c\<rparr>,
              incomplete_sequence_length = lens,
              next_pick_direction = COLUMN\<rparr>"
    then show "steps_ok item"
      by (simp add: steps_ok_def path_def)
  qed
next
  case (child parent longest children item)
  from child.hyps(5,6) show ?case
  proof (rule next_search_points_child)
    fix candidates next_step lens
    assume "next_step \<notin> set (path parent)"
      and "item = \<lparr>SearchStackItem.steps =
                 SearchStackItem.steps parent @ [(next_step, length (SearchStackItem.steps parent))],
               current_step = next_step,
               incomplete_sequence_length = lens,
               next_pick_direction = flip_direction (next_pick_direction parent)\<rparr>"
    with child.IH show "steps_ok item"
      by (simp add: steps_ok_def path_def)
  qed
qed

lemma make_solution_path:
  assumes "steps_ok item"
  shows "make_solution item = \<lparr>Solution.steps = path item\<rparr>"
proof -
  have "sorted (map snd (SearchStackItem.steps item))"
    using assms by (simp add: steps_ok_def)
  then have "sort_key snd (SearchStackItem.steps item) = SearchStackItem.steps item"
    by (rule sort_key_id_if_sorted)
  then show ?thesis by (simp add: make_solution_def path_def)
qed


subsection \<open>The counters\<close>

text \<open>
  What a counter \<open>r\<close> of a sequence says about the values of the path: after a complete
  match the path contains the sequence; before, the path ends with the first
  \<open>len - r\<close> cells of the sequence.
\<close>

definition counter_ok :: "CellValueType list \<Rightarrow> CellValueType list \<Rightarrow> int \<Rightarrow> bool" where
  "counter_ok sequence vals r \<longleftrightarrow>
     sequence \<noteq> [] \<and> 0 \<le> r \<and> r \<le> int (length sequence)
     \<and> (if r = 0 then sublist sequence vals
          else suffix (take (length sequence - nat r) sequence) vals)"

text \<open>The progress rule in the words of the specification (section 4.2).\<close>

definition progress_rule :: "CellValueType list \<Rightarrow> int \<Rightarrow> CellValueType \<Rightarrow> int" where
  "progress_rule sequence r v =
     (if r = 0 then 0
      else if sequence ! nat (int (length sequence) - r) = v then r - 1
      else int (length sequence))"

lemma initial_incomplete_length_rule:
  assumes "initial_incomplete_length v s = Inr r"
  shows "UploadSequence.cells s \<noteq> []"
    and "r = progress_rule (UploadSequence.cells s) (int (length (UploadSequence.cells s))) v"
  using assms
  by (auto simp: initial_incomplete_length_def py_index_def progress_rule_def
      split: if_splits sum.splits)

lemma next_incomplete_length_rule:
  assumes "0 \<le> r" and "r \<le> int (length (UploadSequence.cells s))"
  shows "next_incomplete_length v (s, r) = Inr (progress_rule (UploadSequence.cells s) r v)"
proof (cases "r = 0")
  case True
  then show ?thesis by (simp add: next_incomplete_length_def progress_rule_def)
next
  case False
  with assms have "py_index (UploadSequence.cells s) (- r)
      = Inr (UploadSequence.cells s ! nat (int (length (UploadSequence.cells s)) - r))"
    by (simp add: py_index_def)
  with False show ?thesis by (simp add: next_incomplete_length_def progress_rule_def)
qed

lemma counter_ok_step:
  assumes "counter_ok sequence vals r"
  shows "counter_ok sequence (vals @ [v]) (progress_rule sequence r v)"
proof -
  from assms have ne: "sequence \<noteq> []" and r: "0 \<le> r" "r \<le> int (length sequence)"
    by (simp_all add: counter_ok_def)
  show ?thesis
  proof (cases "r = 0")
    case True
    with assms have "sublist sequence vals" by (simp add: counter_ok_def)
    then obtain ps ss where "vals = ps @ sequence @ ss" by (auto simp: sublist_def)
    then have "vals @ [v] = ps @ sequence @ (ss @ [v])" by simp
    then have "sublist sequence (vals @ [v])" unfolding sublist_def by blast
    with True ne show ?thesis by (simp add: counter_ok_def progress_rule_def)
  next
    case False
    define k where "k = length sequence - nat r"
    from False r have k: "k < length sequence" "nat (int (length sequence) - r) = k"
      by (auto simp: k_def)
    from assms False have suf: "suffix (take k sequence) vals"
      by (simp add: counter_ok_def k_def)
    show ?thesis
    proof (cases "sequence ! k = v")
      case mismatch: False
      with \<open>r \<noteq> 0\<close> k ne show ?thesis
        by (simp add: counter_ok_def progress_rule_def)
    next
      case True
      have "take (Suc k) sequence = take k sequence @ [v]"
        using k True by (simp add: take_Suc_conv_app_nth)
      with suf have suf': "suffix (take (Suc k) sequence) (vals @ [v])"
        by simp
      have rule: "progress_rule sequence r v = r - 1"
        using True False k by (simp add: progress_rule_def)
      show ?thesis
      proof (cases "r = 1")
        case True
        then have "Suc k = length sequence" using k r by (simp add: k_def)
        with suf' have "suffix sequence (vals @ [v])" by simp
        then have "sublist sequence (vals @ [v])" by (rule suffix_imp_sublist)
        with True ne rule show ?thesis by (simp add: counter_ok_def)
      next
        case r1: False
        with False r have "length sequence - nat (r - 1) = Suc k"
          by (auto simp: k_def)
        with suf' r1 False r ne rule show ?thesis by (simp add: counter_ok_def)
      qed
    qed
  qed
qed

lemma counter_ok_initial:
  assumes "sequence \<noteq> []"
  shows "counter_ok sequence [v] (progress_rule sequence (int (length sequence)) v)"
proof -
  from assms have "counter_ok sequence [] (int (length sequence))"
    by (simp add: counter_ok_def)
  from counter_ok_step[OF this, of v] show ?thesis by simp
qed

definition counters_ok :: "GameSpecification \<Rightarrow> SearchStackItem \<Rightarrow> bool" where
  "counters_ok spec item \<longleftrightarrow>
     list_all2 (\<lambda>s r. counter_ok (UploadSequence.cells s) (map value (path item)) r)
       (upload_sequences spec) (incomplete_sequence_length item)"


lemma counters_ok_nth:
  "counters_ok spec item \<longleftrightarrow>
     length (incomplete_sequence_length item) = length (upload_sequences spec)
     \<and> (\<forall>i < length (upload_sequences spec).
           counter_ok (UploadSequence.cells (upload_sequences spec ! i)) (map value (path item))
             (incomplete_sequence_length item ! i))"
  by (auto simp: counters_ok_def list_all2_conv_all_nth)

lemma seed_counters:
  assumes "comprehend (initial_incomplete_length v) sequences = Inr lens"
  shows "length lens = length sequences"
    and "i < length sequences \<Longrightarrow> UploadSequence.cells (sequences ! i) \<noteq> []"
    and "i < length sequences \<Longrightarrow>
           lens ! i = progress_rule (UploadSequence.cells (sequences ! i))
                        (int (length (UploadSequence.cells (sequences ! i)))) v"
proof -
  from assms have all: "list_all2 (\<lambda>s r. initial_incomplete_length v s = Inr r) sequences lens"
    by (rule comprehend_sound)
  then show "length lens = length sequences"
    by (simp add: list_all2_lengthD)
  assume "i < length sequences"
  with all have "initial_incomplete_length v (sequences ! i) = Inr (lens ! i)"
    by (simp add: list_all2_conv_all_nth)
  then show "UploadSequence.cells (sequences ! i) \<noteq> []"
    and "lens ! i = progress_rule (UploadSequence.cells (sequences ! i))
                        (int (length (UploadSequence.cells (sequences ! i)))) v"
    by (rule initial_incomplete_length_rule)+
qed

lemma child_counters:
  assumes "comprehend (next_incomplete_length v) (zip sequences rs) = Inr lens"
    and "length rs = length sequences"
    and "\<And>i. i < length sequences \<Longrightarrow>
           0 \<le> rs ! i \<and> rs ! i \<le> int (length (UploadSequence.cells (sequences ! i)))"
  shows "length lens = length sequences"
    and "i < length sequences \<Longrightarrow>
           lens ! i = progress_rule (UploadSequence.cells (sequences ! i)) (rs ! i) v"
proof -
  from assms(1) have all: "list_all2 (\<lambda>x r. next_incomplete_length v x = Inr r) (zip sequences rs) lens"
    by (rule comprehend_sound)
  then show len: "length lens = length sequences"
    using assms(2) by (auto dest: list_all2_lengthD)
  assume i: "i < length sequences"
  with all assms(2) have "next_incomplete_length v (sequences ! i, rs ! i) = Inr (lens ! i)"
    by (auto simp: list_all2_conv_all_nth)
  moreover have "next_incomplete_length v (sequences ! i, rs ! i)
      = Inr (progress_rule (UploadSequence.cells (sequences ! i)) (rs ! i) v)"
    using assms(3)[OF i] by (intro next_incomplete_length_rule) simp_all
  ultimately show "lens ! i = progress_rule (UploadSequence.cells (sequences ! i)) (rs ! i) v"
    by simp
qed

lemma reachable_counters_ok: "reachable spec item \<Longrightarrow> counters_ok spec item"
proof (induction rule: reachable.induct)
  case (seed search_stack item)
  from seed show ?case
  proof (rule initial_search_stack_item)
    fix row c v lens
    assume lens: "comprehend (initial_incomplete_length v) (upload_sequences spec) = Inr lens"
      and item: "item = \<lparr>SearchStackItem.steps = [(\<lparr>value = v, row_idx = 0, col_idx = c\<rparr>, 0)],
              current_step = \<lparr>value = v, row_idx = 0, col_idx = c\<rparr>,
              incomplete_sequence_length = lens,
              next_pick_direction = COLUMN\<rparr>"
    show "counters_ok spec item"
      unfolding counters_ok_nth
      using seed_counters[OF lens] counter_ok_initial
      by (simp add: item path_def)
  qed
next
  case (child parent longest children item)
  from child.hyps(5,6) show ?case
  proof (rule next_search_points_child)
    fix candidates next_step lens
    assume lens: "comprehend (next_incomplete_length (value next_step))
       (zip (upload_sequences spec) (incomplete_sequence_length parent)) = Inr lens"
      and item: "item = \<lparr>SearchStackItem.steps =
                 SearchStackItem.steps parent @ [(next_step, length (SearchStackItem.steps parent))],
               current_step = next_step,
               incomplete_sequence_length = lens,
               next_pick_direction = flip_direction (next_pick_direction parent)\<rparr>"
    from child.IH have len: "length (incomplete_sequence_length parent) = length (upload_sequences spec)"
      and ok: "\<And>i. i < length (upload_sequences spec) \<Longrightarrow>
           counter_ok (UploadSequence.cells (upload_sequences spec ! i)) (map value (path parent))
             (incomplete_sequence_length parent ! i)"
      by (simp_all add: counters_ok_nth)
    have range: "0 \<le> incomplete_sequence_length parent ! i
        \<and> incomplete_sequence_length parent ! i
            \<le> int (length (UploadSequence.cells (upload_sequences spec ! i)))"
      if "i < length (upload_sequences spec)" for i
      using ok[OF that] by (simp add: counter_ok_def)
    note cc = child_counters[OF lens len range]
    show "counters_ok spec item"
      unfolding counters_ok_nth
      using cc ok counter_ok_step
      by (simp add: item path_def)
  qed
qed


subsection \<open>Alternation of rows and columns\<close>

definition alternating :: "SolutionStep list \<Rightarrow> bool" where
  "alternating p \<longleftrightarrow>
     p \<noteq> [] \<and> row_idx (p ! 0) = 0
     \<and> (\<forall>k. 0 < k \<and> k < length p \<longrightarrow>
           (if odd k then col_idx (p ! k) = col_idx (p ! (k - 1))
            else row_idx (p ! k) = row_idx (p ! (k - 1))))"

definition direction_ok :: "SearchStackItem \<Rightarrow> bool" where
  "direction_ok item \<longleftrightarrow>
     alternating (path item)
     \<and> next_pick_direction item = (if odd (length (path item)) then COLUMN else ROW)"

lemma alternating_snoc:
  assumes "alternating p"
    and "odd (length p) \<Longrightarrow> col_idx s = col_idx (last p)"
    and "even (length p) \<Longrightarrow> row_idx s = row_idx (last p)"
  shows "alternating (p @ [s])"
proof -
  from assms(1) have ne: "p \<noteq> []" and first: "row_idx (p ! 0) = 0"
    and old: "\<And>k. 0 < k \<Longrightarrow> k < length p \<Longrightarrow>
           (if odd k then col_idx (p ! k) = col_idx (p ! (k - 1))
            else row_idx (p ! k) = row_idx (p ! (k - 1)))"
    unfolding alternating_def by blast+
  show ?thesis
    unfolding alternating_def
  proof (intro conjI allI impI)
    show "p @ [s] \<noteq> []" by simp
    show "row_idx ((p @ [s]) ! 0) = 0"
      using ne first by (simp add: nth_append)
  next
    fix k
    assume "0 < k \<and> k < length (p @ [s])"
    then have k: "0 < k" "k \<le> length p" by simp_all
    show "if odd k then col_idx ((p @ [s]) ! k) = col_idx ((p @ [s]) ! (k - 1))
            else row_idx ((p @ [s]) ! k) = row_idx ((p @ [s]) ! (k - 1))"
    proof (cases "k < length p")
      case True
      then have "(p @ [s]) ! k = p ! k" "(p @ [s]) ! (k - 1) = p ! (k - 1)"
        by (simp_all add: nth_append)
      with old[OF k(1) True] show ?thesis by (simp only:)
    next
      case False
      with k have kl: "k = length p" by simp
      have "(p @ [s]) ! k = s" by (simp add: kl)
      moreover have "(p @ [s]) ! (k - 1) = last p"
        using ne by (simp add: kl nth_append last_conv_nth)
      ultimately show ?thesis
        using assms(2,3) by (simp only: kl split: if_split) blast
    qed
  qed
qed

lemma reachable_direction_ok: "reachable spec item \<Longrightarrow> direction_ok item"
proof (induction rule: reachable.induct)
  case (seed search_stack item)
  from seed show ?case
  proof (rule initial_search_stack_item)
    fix row c v lens
    assume "item = \<lparr>SearchStackItem.steps = [(\<lparr>value = v, row_idx = 0, col_idx = c\<rparr>, 0)],
              current_step = \<lparr>value = v, row_idx = 0, col_idx = c\<rparr>,
              incomplete_sequence_length = lens,
              next_pick_direction = COLUMN\<rparr>"
    then show "direction_ok item"
      by (simp add: direction_ok_def alternating_def path_def)
  qed
next
  case (child parent longest children item)
  from child.hyps(1) have last: "current_step parent = last (path parent)"
    by (auto dest: reachable_steps_ok simp: steps_ok_def)
  from child.IH have alt: "alternating (path parent)"
    and dir: "next_pick_direction parent = (if odd (length (path parent)) then COLUMN else ROW)"
    by (simp_all add: direction_ok_def)
  from child.hyps(5,6) show ?case
  proof (rule next_search_points_child)
    fix candidates next_step lens
    assume cands: "next_steps spec parent = Inr candidates" "next_step \<in> set candidates"
      and item: "item = \<lparr>SearchStackItem.steps =
                 SearchStackItem.steps parent @ [(next_step, length (SearchStackItem.steps parent))],
               current_step = next_step,
               incomplete_sequence_length = lens,
               next_pick_direction = flip_direction (next_pick_direction parent)\<rparr>"
    from next_steps_cases[OF cands] dir last
    have "odd (length (path parent)) \<Longrightarrow> col_idx next_step = col_idx (last (path parent))"
      and "even (length (path parent)) \<Longrightarrow> row_idx next_step = row_idx (last (path parent))"
      by (auto split: if_splits)
    with alt have "alternating (path parent @ [next_step])"
      by (rule alternating_snoc)
    with dir show "direction_ok item"
      by (simp add: direction_ok_def item path_def flip_direction_def)
  qed
qed

subsection \<open>The buffer\<close>

lemma py_max_upper:
  assumes "py_max xs = Inr m" and "x \<in> set xs"
  shows "x \<le> m"
proof -
  from assms obtain y ys where xs: "xs = y # ys" and m: "m = fold max ys y"
    by (auto simp: py_max_def split: list.splits)
  have "fold max ys y = Max (set (y # ys))"
    by (rule Max.set_eq_fold[symmetric])
  then have "m = Max (set xs)"
    by (simp only: xs m)
  moreover have "x \<le> Max (set xs)"
    using assms(2) by (intro Max_ge) simp_all
  ultimately show ?thesis by simp
qed

definition within_buffer :: "GameSpecification \<Rightarrow> SearchStackItem \<Rightarrow> bool" where
  "within_buffer spec item \<longleftrightarrow>
     (0 < buffer_size spec \<longrightarrow> int (length (SearchStackItem.steps item)) \<le> buffer_size spec)"

lemma reachable_within_buffer: "reachable spec item \<Longrightarrow> within_buffer spec item"
proof (induction rule: reachable.induct)
  case (seed search_stack item)
  from seed show ?case
  proof (rule initial_search_stack_item)
    fix row c v lens
    assume "item = \<lparr>SearchStackItem.steps = [(\<lparr>value = v, row_idx = 0, col_idx = c\<rparr>, 0)],
              current_step = \<lparr>value = v, row_idx = 0, col_idx = c\<rparr>,
              incomplete_sequence_length = lens,
              next_pick_direction = COLUMN\<rparr>"
    then show "within_buffer spec item"
      by (simp add: within_buffer_def)
  qed
next
  case (child parent longest children item)
  have nonneg: "0 \<le> r" if "r \<in> set (incomplete_sequence_length parent)" for r
  proof -
    from that obtain i where "i < length (incomplete_sequence_length parent)"
      "r = incomplete_sequence_length parent ! i"
      by (auto simp: in_set_conv_nth)
    with reachable_counters_ok[OF child.hyps(1)] show ?thesis
      by (auto simp: counters_ok_nth counter_ok_def)
  qed
  have "(sum_list (incomplete_sequence_length parent) = 0)
      = (\<forall>r \<in> set (incomplete_sequence_length parent). r = 0)"
    by (rule sum_list_nonneg_eq_0_iff) (rule nonneg)
  with child.hyps(2) obtain r where r: "r \<in> set (incomplete_sequence_length parent)" "r \<noteq> 0"
    by blast
  from r have "1 \<le> r" using nonneg[OF r(1)] by simp
  moreover have "r \<le> longest" using child.hyps(3) r(1) by (rule py_max_upper)
  ultimately have "1 \<le> longest"
    by simp
  with child.hyps(4) have room: "int (length (SearchStackItem.steps parent)) + 1 \<le> buffer_size spec"
    by simp
  from child.hyps(5,6) show ?case
  proof (rule next_search_points_child)
    fix candidates next_step lens
    assume "item = \<lparr>SearchStackItem.steps =
                 SearchStackItem.steps parent @ [(next_step, length (SearchStackItem.steps parent))],
               current_step = next_step,
               incomplete_sequence_length = lens,
               next_pick_direction = flip_direction (next_pick_direction parent)\<rparr>"
    with room show "within_buffer spec item"
      by (simp add: within_buffer_def)
  qed
qed

subsection \<open>Steps are cells of the matrix\<close>

lemma reachable_in_grid:
  "reachable spec item \<Longrightarrow> set (path item) \<subseteq> grid_steps (code_matrix spec)"
proof (induction rule: reachable.induct)
  case (seed search_stack item)
  from seed show ?case
  proof (rule initial_search_stack_item)
    fix row c v lens
    assume row: "iterate_row (code_matrix spec) 0 = Inr row" "(c, v) \<in> set row"
      and item: "item = \<lparr>SearchStackItem.steps = [(\<lparr>value = v, row_idx = 0, col_idx = c\<rparr>, 0)],
              current_step = \<lparr>value = v, row_idx = 0, col_idx = c\<rparr>,
              incomplete_sequence_length = lens,
              next_pick_direction = COLUMN\<rparr>"
    from iterate_row_member[OF row]
    have "\<lparr>value = v, row_idx = 0, col_idx = c\<rparr> \<in> grid_steps (code_matrix spec)"
      by (intro grid_stepsI) simp_all
    then show "set (path item) \<subseteq> grid_steps (code_matrix spec)"
      by (simp add: item path_def)
  qed
next
  case (child parent longest children item)
  from child.hyps(5,6) show ?case
  proof (rule next_search_points_child)
    fix candidates next_step lens
    assume cands: "next_steps spec parent = Inr candidates" "next_step \<in> set candidates"
      and item: "item = \<lparr>SearchStackItem.steps =
                 SearchStackItem.steps parent @ [(next_step, length (SearchStackItem.steps parent))],
               current_step = next_step,
               incomplete_sequence_length = lens,
               next_pick_direction = flip_direction (next_pick_direction parent)\<rparr>"
    from cands have "next_step \<in> grid_steps (code_matrix spec)"
      by (rule next_steps_in_grid)
    with child.IH show "set (path item) \<subseteq> grid_steps (code_matrix spec)"
      by (simp add: item path_def)
  qed
qed

lemma grid_steps_position:
  "inj_on (\<lambda>s. (row_idx s, col_idx s)) (grid_steps m)"
  by (rule inj_onI) (auto simp: grid_steps_def)

lemma grid_steps_value:
  assumes "s \<in> grid_steps m"
  shows "row_idx s < length (CodeMatrix.cells m)"
    and "col_idx s < length (CodeMatrix.cells m ! row_idx s)"
    and "value s = CodeMatrix.cells m ! row_idx s ! col_idx s"
  using assms by (auto simp: grid_steps_def)

subsection \<open>What the loop returns\<close>

definition accepted_solution :: "GameSpecification \<Rightarrow> Solution \<Rightarrow> bool" where
  "accepted_solution spec sol \<longleftrightarrow>
     (\<exists>item. reachable spec item \<and> sum_list (incomplete_sequence_length item) = 0
        \<and> sol = make_solution item)"

lemma search_loop_solutions:
  assumes "search_loop spec strategy search_stack solutions = Inr result"
    and "\<And>item. item \<in> set search_stack \<Longrightarrow> reachable spec item"
    and "\<And>sol. sol \<in> set solutions \<Longrightarrow> accepted_solution spec sol"
    and "sol \<in> set result"
  shows "accepted_solution spec sol"
  using assms
proof (induction spec strategy search_stack solutions rule: search_loop.induct)
  case (1 spec strategy solutions)
  then show ?case by simp
next
  case (2 spec strategy cur rest solutions)
  have cur: "reachable spec cur" and rest: "\<And>item. item \<in> set rest \<Longrightarrow> reachable spec item"
    using "2.prems"(2) by simp_all
  show ?case
  proof (cases "sum_list (incomplete_sequence_length cur) = 0")
    case True
    then have acc: "accepted_solution spec (make_solution cur)"
      using cur unfolding accepted_solution_def by blast
    have sols: "accepted_solution spec s" if "s \<in> set (solutions @ [make_solution cur])" for s
      using that acc "2.prems"(3) by auto
    show ?thesis
    proof (cases "strategy = FIND_FIRST_SOLUTION")
      case first: True
      with True "2.prems"(1) have "result = solutions @ [make_solution cur]" by simp
      with sols "2.prems"(4) show ?thesis by blast
    next
      case False
      with True "2.prems"(1) have
        "search_loop spec strategy rest (solutions @ [make_solution cur]) = Inr result"
        by simp
      from "2.IH"(1)[OF True False this rest sols "2.prems"(4)] show ?thesis .
    qed
  next
    case False
    with "2.prems"(1) obtain longest where
      longest: "py_max (incomplete_sequence_length cur) = Inr longest"
      by (auto split: sum.splits)
    show ?thesis
    proof (cases "buffer_size spec - int (length (SearchStackItem.steps cur)) < longest")
      case True
      with False longest "2.prems"(1) have "search_loop spec strategy rest solutions = Inr result"
        by simp
      from "2.IH"(2)[OF False longest True this rest "2.prems"(3,4)] show ?thesis .
    next
      case room: False
      with False longest "2.prems"(1) obtain children where
        children: "next_search_points spec cur = Inr children"
        and loop: "search_loop spec strategy (rev children @ rest) solutions = Inr result"
        by (auto split: sum.splits)
      have "reachable spec item" if "item \<in> set (rev children @ rest)" for item
        using that rest reachable.child[OF cur False longest room children] by auto
      from "2.IH"(3)[OF False longest room children loop this "2.prems"(3,4)] show ?thesis .
    qed
  qed
qed

lemma solve_internal_solutions:
  assumes "solve_internal spec strategy = Inr solutions" and "sol \<in> set solutions"
  shows "accepted_solution spec sol"
proof -
  from assms(1) obtain search_stack found where
    stack: "initial_search_stack spec = Inr search_stack"
    and found: "search_loop spec strategy search_stack [] = Inr found"
    and "solutions = sort_key (\<lambda>sol. length (Solution.steps sol)) found"
    by (auto simp: solve_internal_def split: sum.splits)
  with assms(2) have "sol \<in> set found" by simp
  show ?thesis
  proof (rule search_loop_solutions[OF found _ _ \<open>sol \<in> set found\<close>])
    show "reachable spec item" if "item \<in> set search_stack" for item
      using stack that by (rule reachable.seed)
  qed simp
qed

lemma solve_final_specification:
  "solve spec strategy = solve_internal (final_specification spec strategy) strategy"
proof (induction spec strategy rule: solve.induct)
  case (1 spec strategy)
  show ?case
  proof (cases "solve_internal spec strategy = Inr [] \<and> 1 < length (unique_priorities spec)")
    case True
    with "1.IH"[of "[]"] show ?thesis
      by (subst solve.simps, subst final_specification.simps) simp
  next
    case False
    then show ?thesis
      by (subst solve.simps, subst final_specification.simps) (auto split: sum.splits)
  qed
qed

lemma final_specification_fixed:
  "code_matrix (final_specification spec strategy) = code_matrix spec
   \<and> buffer_size (final_specification spec strategy) = buffer_size spec"
proof (induction spec strategy rule: final_specification.induct)
  case (1 spec strategy)
  show ?case
  proof (cases "solve_internal spec strategy = Inr [] \<and> 1 < length (unique_priorities spec)")
    case True
    then have "final_specification spec strategy = final_specification (updated_spec spec) strategy"
      by (subst final_specification.simps) simp
    with "1.IH"[OF True] show ?thesis
      by (simp add: updated_spec_def)
  next
    case False
    then have "final_specification spec strategy = spec"
      by (subst final_specification.simps) auto
    then show ?thesis by simp
  qed
qed

lemma solve_solutions:
  assumes "solve spec strategy = Inr solutions" and "sol \<in> set solutions"
  shows "accepted_solution (final_specification spec strategy) sol"
  using assms by (simp add: solve_final_specification solve_internal_solutions)


lemma accepted_solution_props:
  assumes "accepted_solution spec sol"
  shows "\<exists>item. reachable spec item \<and> Solution.steps sol = path item
           \<and> (\<forall>r \<in> set (incomplete_sequence_length item). r = 0)"
proof -
  from assms obtain item where item: "reachable spec item"
    and zero: "sum_list (incomplete_sequence_length item) = 0"
    and sol: "sol = make_solution item"
    unfolding accepted_solution_def by blast
  have nonneg: "0 \<le> r" if "r \<in> set (incomplete_sequence_length item)" for r
  proof -
    from that obtain i where "i < length (incomplete_sequence_length item)"
      "r = incomplete_sequence_length item ! i"
      by (auto simp: in_set_conv_nth)
    with reachable_counters_ok[OF item] show ?thesis
      by (auto simp: counters_ok_nth counter_ok_def)
  qed
  have "(sum_list (incomplete_sequence_length item) = 0)
      = (\<forall>r \<in> set (incomplete_sequence_length item). r = 0)"
    by (rule sum_list_nonneg_eq_0_iff) (rule nonneg)
  with zero have all: "\<forall>r \<in> set (incomplete_sequence_length item). r = 0"
    by blast
  have "Solution.steps sol = path item"
    using make_solution_path[OF reachable_steps_ok[OF item]] sol by simp
  with item all show ?thesis by blast
qed

lemma sublist_concat:
  assumes "sublist xs ys"
  shows "sublist (concat xs) (concat ys)"
proof -
  from assms obtain ps ss where "ys = ps @ xs @ ss" by (auto simp: sublist_def)
  then have "concat ys = concat ps @ concat xs @ concat ss" by simp
  then show ?thesis unfolding sublist_def by blast
qed

subsection \<open>Discovery order and the first solution\<close>

text \<open>The solutions in the order the loop found them, before \<^verbatim>\<open>sorted\<close>.\<close>

definition discovered :: "GameSpecification \<Rightarrow> SolutionStrategy \<Rightarrow> py_error + Solution list" where
  "discovered spec strategy =
     (case initial_search_stack spec of
        Inl e \<Rightarrow> Inl e
      | Inr search_stack \<Rightarrow> search_loop spec strategy search_stack [])"

lemma solve_internal_discovered:
  "solve_internal spec strategy =
     (case discovered spec strategy of
        Inl e \<Rightarrow> Inl e
      | Inr found \<Rightarrow> Inr (sort_key (\<lambda>sol. length (Solution.steps sol)) found))"
  by (simp add: solve_internal_def discovered_def split: sum.splits)

lemma search_loop_first:
  assumes "search_loop spec FIND_FIRST_SOLUTION search_stack solutions = Inr result"
  shows "length result \<le> Suc (length solutions)"
  using assms
proof (induction spec "FIND_FIRST_SOLUTION" search_stack solutions rule: search_loop.induct)
  case (1 spec solutions)
  then show ?case by simp
next
  case (2 spec cur rest solutions)
  show ?case
  proof (cases "sum_list (incomplete_sequence_length cur) = 0")
    case True
    with "2.prems" have "result = solutions @ [make_solution cur]" by auto
    then show ?thesis by simp
  next
    case False
    with "2.prems" obtain longest where
      longest: "py_max (incomplete_sequence_length cur) = Inr longest"
      by (auto split: sum.splits)
    show ?thesis
    proof (cases "buffer_size spec - int (length (SearchStackItem.steps cur)) < longest")
      case True
      with False longest "2.prems" have
        "search_loop spec FIND_FIRST_SOLUTION rest solutions = Inr result"
        by simp
      from "2.hyps"(2)[OF False longest True this] show ?thesis .
    next
      case room: False
      with False longest "2.prems" obtain children where
        children: "next_search_points spec cur = Inr children"
        and loop: "search_loop spec FIND_FIRST_SOLUTION (rev children @ rest) solutions = Inr result"
        by (auto split: sum.splits)
      from "2.hyps"(3)[OF False longest room children loop] show ?thesis .
    qed
  qed
qed


subsection \<open>The priorities\<close>

lemma unique_priorities_card:
  "length (unique_priorities spec) = card (priority ` set (upload_sequences spec))"
  by (simp add: unique_priorities_def length_remdups_card_conv)

lemma unique_priorities_Min:
  assumes "upload_sequences spec \<noteq> []"
  shows "unique_priorities spec ! 0 = Min (priority ` set (upload_sequences spec))"
proof -
  let ?u = "unique_priorities spec"
  have set: "set ?u = priority ` set (upload_sequences spec)"
    by (simp add: unique_priorities_def)
  with assms have ne: "?u \<noteq> []" by auto
  have sorted: "sorted ?u" by (simp add: unique_priorities_def)
  have "?u ! 0 \<le> p" if "p \<in> set ?u" for p
  proof -
    from that obtain i where "i < length ?u" "p = ?u ! i" by (auto simp: in_set_conv_nth)
    with sorted show ?thesis by (simp add: sorted_iff_nth_mono)
  qed
  moreover have "?u ! 0 \<in> set ?u" using ne by simp
  ultimately have "Min (set ?u) = ?u ! 0"
    by (intro Min_eqI) simp_all
  then show ?thesis by (simp add: set)
qed

section \<open>Properties\<close>

subsection \<open>Construction of the matrix\<close>

text \<open>A square list of rows: at least one row, and every row as long as the list.\<close>

definition square_rows :: "CellValueType list list \<Rightarrow> bool" where
  "square_rows rows = (rows \<noteq> [] \<and> list_all (\<lambda>row. length row = length rows) rows)"

text \<open>
  C9, as the code has it: constructing a \<^verbatim>\<open>CodeMatrix\<close> from any list of rows, square or
  not, succeeds; the matrix holds the rows unchanged and its \<^verbatim>\<open>size\<close> is the number of rows.
\<close>

theorem CodeMatrix_init_total:
  "\<exists>m. CodeMatrix_init rows = Inr m \<and> CodeMatrix.cells m = rows
       \<and> CodeMatrix_size m = length rows"
  by (simp add: CodeMatrix_init_def CodeMatrix_size_def)

text \<open>
  C9 as stated fails: a single row of two cells is not square, and the construction
  returns a matrix (of size 1) instead of raising.
\<close>

theorem CodeMatrix_init_not_square:
  "\<not> square_rows [[''BD'', ''55'']]
   \<and> CodeMatrix_init [[''BD'', ''55'']] = Inr \<lparr>CodeMatrix.cells = [[''BD'', ''55'']]\<rparr>
   \<and> CodeMatrix_size \<lparr>CodeMatrix.cells = [[''BD'', ''55'']]\<rparr> = 1"
  by (simp add: square_rows_def CodeMatrix_init_def CodeMatrix_size_def)

subsection \<open>Test inputs\<close>

text \<open>
  \<open>scenario_A\<close> is the input of \<^verbatim>\<open>test_solve_single_sequence_easy_matrix\<close> and
  \<open>scenario_B\<close> that of \<^verbatim>\<open>test_no_solutions\<close>. \<open>scenario_relax\<close> adds to the first a
  sequence of lower priority that the matrix cannot satisfy. In \<open>scenario_order\<close> the
  search finds a solution of two steps before one of a single step.
\<close>

definition scenario_A :: GameSpecification where
  "scenario_A =
     \<lparr>code_matrix = \<lparr>CodeMatrix.cells = [[''BD'', ''55''], [''E9'', ''1C'']]\<rparr>,
      upload_sequences = [\<lparr>UploadSequence.cells = [''55'', ''1C''], priority = 1\<rparr>],
      buffer_size = 2\<rparr>"

definition scenario_relax :: GameSpecification where
  "scenario_relax =
     \<lparr>code_matrix = \<lparr>CodeMatrix.cells = [[''BD'', ''55''], [''E9'', ''1C'']]\<rparr>,
      upload_sequences = [\<lparr>UploadSequence.cells = [''7A'', ''1C''], priority = 1\<rparr>,
                          \<lparr>UploadSequence.cells = [''55'', ''1C''], priority = 2\<rparr>],
      buffer_size = 2\<rparr>"

definition solution_A :: Solution where
  "solution_A = \<lparr>Solution.steps = [\<lparr>value = ''55'', row_idx = 0, col_idx = 1\<rparr>,
                                   \<lparr>value = ''1C'', row_idx = 1, col_idx = 1\<rparr>]\<rparr>"

definition scenario_order :: GameSpecification where
  "scenario_order =
     \<lparr>code_matrix = \<lparr>CodeMatrix.cells = [[''55'', ''1C''], [''1C'', ''55'']]\<rparr>,
      upload_sequences = [\<lparr>UploadSequence.cells = [''55''], priority = 1\<rparr>],
      buffer_size = 2\<rparr>"

definition scenario_B :: GameSpecification where
  "scenario_B =
     \<lparr>code_matrix = \<lparr>CodeMatrix.cells = [[''BD'', ''55''], [''E9'', ''1C'']]\<rparr>,
      upload_sequences = [\<lparr>UploadSequence.cells = [''7A'', ''1C''], priority = 1\<rparr>],
      buffer_size = 2\<rparr>"

definition solution_short :: Solution where
  "solution_short = \<lparr>Solution.steps = [\<lparr>value = ''55'', row_idx = 0, col_idx = 0\<rparr>]\<rparr>"

definition solution_long :: Solution where
  "solution_long = \<lparr>Solution.steps = [\<lparr>value = ''1C'', row_idx = 0, col_idx = 1\<rparr>,
                                      \<lparr>value = ''55'', row_idx = 1, col_idx = 1\<rparr>]\<rparr>"

definition seed_BD :: SearchStackItem where
  "seed_BD = \<lparr>SearchStackItem.steps = [(\<lparr>value = ''BD'', row_idx = 0, col_idx = 0\<rparr>, 0)],
              current_step = \<lparr>value = ''BD'', row_idx = 0, col_idx = 0\<rparr>,
              incomplete_sequence_length = [2], next_pick_direction = COLUMN\<rparr>"

subsection \<open>Runs on the test inputs\<close>

lemma solve_scenario_A:
  "solve scenario_A FIND_FIRST_SOLUTION = Inr [solution_A]"
  by code_simp

lemma solve_scenario_relax:
  "solve scenario_relax FIND_ALL_SOLUTIONS = Inr [solution_A]"
  by code_simp

lemma final_scenario_relax:
  "upload_sequences (final_specification scenario_relax FIND_ALL_SOLUTIONS)
     = [\<lparr>UploadSequence.cells = [''55'', ''1C''], priority = 2\<rparr>]"
  by code_simp

lemma solve_scenario_order:
  "solve scenario_order FIND_ALL_SOLUTIONS = Inr [solution_short, solution_long]"
  by code_simp

lemma discovered_scenario_order:
  "discovered (final_specification scenario_order FIND_ALL_SOLUTIONS) FIND_ALL_SOLUTIONS
     = Inr [solution_long, solution_short]"
  by code_simp

lemma solve_scenario_order_first:
  "solve scenario_order FIND_FIRST_SOLUTION = Inr [solution_long]"
  by code_simp

lemma solve_internal_scenario_relax:
  "solve_internal scenario_relax FIND_ALL_SOLUTIONS = Inr []"
  by code_simp

lemma solve_internal_scenario_B:
  "solve_internal scenario_B FIND_ALL_SOLUTIONS = Inr []"
  by code_simp

lemma updated_scenario_relax:
  "updated_spec scenario_relax = scenario_A\<lparr>upload_sequences :=
      [\<lparr>UploadSequence.cells = [''55'', ''1C''], priority = 2\<rparr>]\<rparr>"
  by code_simp

subsection \<open>Properties of the returned solutions\<close>

text \<open>
  C1 (coverage): for every solution that \<^const>\<open>solve\<close> returns, under either strategy, and
  every upload sequence of the specification the result was computed for (the original
  one, or the one left after the lower priorities were discarded), the cell values of the
  sequence occur as a contiguous run in the list of step values of the solution, and so
  the concatenated sequence occurs in the concatenated step values.
\<close>

theorem solve_coverage:
  assumes "solve spec strategy = Inr solutions" and "sol \<in> set solutions"
    and "sequence \<in> set (upload_sequences (final_specification spec strategy))"
  shows "sublist (UploadSequence.cells sequence) (map value (Solution.steps sol))
       \<and> sublist (concat (UploadSequence.cells sequence)) (concat (map value (Solution.steps sol)))"
proof -
  let ?final = "final_specification spec strategy"
  from assms(1,2) have "accepted_solution ?final sol" by (rule solve_solutions)
  then obtain item where item: "reachable ?final item" and sol: "Solution.steps sol = path item"
    and zero: "\<forall>r \<in> set (incomplete_sequence_length item). r = 0"
    using accepted_solution_props by blast
  from assms(3) obtain i where i: "i < length (upload_sequences ?final)"
    and seq: "sequence = upload_sequences ?final ! i"
    by (auto simp: in_set_conv_nth)
  from reachable_counters_ok[OF item] i
  have len: "i < length (incomplete_sequence_length item)"
    and ok: "counter_ok (UploadSequence.cells sequence) (map value (path item))
               (incomplete_sequence_length item ! i)"
    by (simp_all add: counters_ok_nth seq)
  from len zero have "incomplete_sequence_length item ! i = 0" by simp
  with ok have "sublist (UploadSequence.cells sequence) (map value (Solution.steps sol))"
    by (simp add: counter_ok_def sol)
  then show ?thesis by (simp add: sublist_concat)
qed

theorem solve_coverage_witness:
  "solve scenario_relax FIND_ALL_SOLUTIONS = Inr [solution_A]
   \<and> upload_sequences (final_specification scenario_relax FIND_ALL_SOLUTIONS)
       = [\<lparr>UploadSequence.cells = [''55'', ''1C''], priority = 2\<rparr>]
   \<and> sublist [''55'', ''1C''] (map value (Solution.steps solution_A))
   \<and> sublist ''551C'' (concat (map value (Solution.steps solution_A)))"
  using solve_coverage[of scenario_relax FIND_ALL_SOLUTIONS "[solution_A]" solution_A
      "\<lparr>UploadSequence.cells = [''55'', ''1C''], priority = 2\<rparr>"]
    solve_scenario_relax final_scenario_relax
  by simp

text \<open>
  C2 (alternation): in every solution that \<^const>\<open>solve\<close> returns, the step at index 0 is in
  row 0, every step at an odd index \<open>k\<close> has the column of step \<open>k - 1\<close>, and every step
  at an even index \<open>k > 0\<close> has the row of step \<open>k - 1\<close>.
\<close>

theorem solve_alternation:
  assumes "solve spec strategy = Inr solutions" and "sol \<in> set solutions"
  shows "Solution.steps sol \<noteq> [] \<and> row_idx (Solution.steps sol ! 0) = 0
       \<and> (\<forall>k. 0 < k \<and> k < length (Solution.steps sol) \<longrightarrow>
             (odd k \<longrightarrow> col_idx (Solution.steps sol ! k) = col_idx (Solution.steps sol ! (k - 1)))
           \<and> (even k \<longrightarrow> row_idx (Solution.steps sol ! k) = row_idx (Solution.steps sol ! (k - 1))))"
proof -
  from assms have "accepted_solution (final_specification spec strategy) sol"
    by (rule solve_solutions)
  then obtain item where item: "reachable (final_specification spec strategy) item"
    and sol: "Solution.steps sol = path item"
    using accepted_solution_props by blast
  from reachable_direction_ok[OF item] have "alternating (Solution.steps sol)"
    by (simp add: direction_ok_def sol)
  then show ?thesis
    unfolding alternating_def by (auto split: if_splits)
qed

theorem solve_alternation_witness:
  "solve scenario_A FIND_FIRST_SOLUTION = Inr [solution_A]
   \<and> row_idx (Solution.steps solution_A ! 0) = 0
   \<and> col_idx (Solution.steps solution_A ! 1) = col_idx (Solution.steps solution_A ! 0)"
  using solve_alternation[of scenario_A FIND_FIRST_SOLUTION "[solution_A]" solution_A]
    solve_scenario_A
  by (simp add: solution_A_def)

text \<open>
  C5 (length bound): when \<^verbatim>\<open>buffer_size\<close> is positive, every solution that \<^const>\<open>solve\<close>
  returns has at most \<^verbatim>\<open>buffer_size\<close> steps; and a state that is not accepted and whose
  slack \<^verbatim>\<open>buffer_size - len(steps)\<close> is below its largest counter is dropped from the stack
  with nothing appended.
\<close>

theorem solve_length_bound:
  "(0 < buffer_size spec \<and> solve spec strategy = Inr solutions \<and> sol \<in> set solutions
      \<longrightarrow> int (length (Solution.steps sol)) \<le> buffer_size spec)
   \<and> (sum_list (incomplete_sequence_length current_search_point) \<noteq> 0
      \<and> py_max (incomplete_sequence_length current_search_point) = Inr longest
      \<and> buffer_size spec - int (length (SearchStackItem.steps current_search_point)) < longest
      \<longrightarrow> search_loop spec strategy (current_search_point # search_stack) found
            = search_loop spec strategy search_stack found)"
proof (intro conjI impI)
  assume a: "0 < buffer_size spec \<and> solve spec strategy = Inr solutions \<and> sol \<in> set solutions"
  let ?final = "final_specification spec strategy"
  from a have "accepted_solution ?final sol" by (simp add: solve_solutions)
  then obtain item where item: "reachable ?final item" and sol: "Solution.steps sol = path item"
    using accepted_solution_props by blast
  from reachable_within_buffer[OF item] a
  show "int (length (Solution.steps sol)) \<le> buffer_size spec"
    by (simp add: within_buffer_def sol path_def final_specification_fixed)
next
  assume "sum_list (incomplete_sequence_length current_search_point) \<noteq> 0
      \<and> py_max (incomplete_sequence_length current_search_point) = Inr longest
      \<and> buffer_size spec - int (length (SearchStackItem.steps current_search_point)) < longest"
  then show "search_loop spec strategy (current_search_point # search_stack) found
            = search_loop spec strategy search_stack found"
    by simp
qed

theorem solve_length_bound_witness:
  "0 < buffer_size scenario_A
   \<and> solve scenario_A FIND_FIRST_SOLUTION = Inr [solution_A]
   \<and> int (length (Solution.steps solution_A)) \<le> buffer_size scenario_A
   \<and> py_max (incomplete_sequence_length seed_BD) = Inr 2
   \<and> buffer_size scenario_A - int (length (SearchStackItem.steps seed_BD)) < 2
   \<and> search_loop scenario_A FIND_ALL_SOLUTIONS [seed_BD] [] = Inr []"
  using solve_length_bound[of scenario_A FIND_FIRST_SOLUTION "[solution_A]" solution_A]
    solve_length_bound[where current_search_point = seed_BD and longest = 2
      and spec = scenario_A and strategy = FIND_ALL_SOLUTIONS and search_stack = "[]"
      and found = "[]" and solutions = "[]" and sol = solution_A]
    solve_scenario_A
  by (simp add: scenario_A_def seed_BD_def py_max_def)

text \<open>
  C6 (uniqueness): the steps of every solution that \<^const>\<open>solve\<close> returns are pairwise
  distinct as (value, row, column) records, and so are their (row, column) positions: no
  cell of the matrix is visited twice on one path.
\<close>

theorem solve_distinct_steps:
  assumes "solve spec strategy = Inr solutions" and "sol \<in> set solutions"
  shows "distinct (Solution.steps sol)
       \<and> distinct (map (\<lambda>s. (row_idx s, col_idx s)) (Solution.steps sol))"
proof -
  from assms have "accepted_solution (final_specification spec strategy) sol"
    by (rule solve_solutions)
  then obtain item where item: "reachable (final_specification spec strategy) item"
    and sol: "Solution.steps sol = path item"
    using accepted_solution_props by blast
  from reachable_steps_ok[OF item] have d: "distinct (Solution.steps sol)"
    by (simp add: steps_ok_def sol)
  have "inj_on (\<lambda>s. (row_idx s, col_idx s)) (set (Solution.steps sol))"
    using reachable_in_grid[OF item] grid_steps_position
    unfolding sol by (rule inj_on_subset[rotated])
  with d show ?thesis by (simp add: distinct_map)
qed

theorem solve_distinct_steps_witness:
  "solve scenario_A FIND_FIRST_SOLUTION = Inr [solution_A]
   \<and> distinct (Solution.steps solution_A)
   \<and> distinct (map (\<lambda>s. (row_idx s, col_idx s)) (Solution.steps solution_A))"
  using solve_distinct_steps[of scenario_A FIND_FIRST_SOLUTION "[solution_A]" solution_A]
    solve_scenario_A
  by simp

text \<open>
  C7 (ordering): under \<^const>\<open>FIND_ALL_SOLUTIONS\<close> the returned list is sorted by
  non-decreasing number of steps, it holds the solutions the loop found, and the solutions
  of any one length stand in the order the loop found them; under
  \<^const>\<open>FIND_FIRST_SOLUTION\<close> the returned list has at most one element.
\<close>

theorem solve_ordering:
  "(solve spec FIND_ALL_SOLUTIONS = Inr solutions \<longrightarrow>
      sorted (map (\<lambda>sol. length (Solution.steps sol)) solutions)
      \<and> (\<exists>found. discovered (final_specification spec FIND_ALL_SOLUTIONS) FIND_ALL_SOLUTIONS
                     = Inr found
            \<and> mset solutions = mset found
            \<and> (\<forall>n. filter (\<lambda>sol. length (Solution.steps sol) = n) solutions
                   = filter (\<lambda>sol. length (Solution.steps sol) = n) found)))
   \<and> (solve spec FIND_FIRST_SOLUTION = Inr solutions \<longrightarrow> length solutions \<le> 1)"
proof (intro conjI impI)
  assume "solve spec FIND_ALL_SOLUTIONS = Inr solutions"
  then obtain found where
    found: "discovered (final_specification spec FIND_ALL_SOLUTIONS) FIND_ALL_SOLUTIONS = Inr found"
    and sols: "solutions = sort_key (\<lambda>sol. length (Solution.steps sol)) found"
    by (auto simp: solve_final_specification solve_internal_discovered split: sum.splits)
  show "sorted (map (\<lambda>sol. length (Solution.steps sol)) solutions)"
    unfolding sols by (rule sorted_sort_key)
  have "mset solutions = mset found"
    unfolding sols by simp
  moreover have "filter (\<lambda>sol. length (Solution.steps sol) = n) solutions
                   = filter (\<lambda>sol. length (Solution.steps sol) = n) found" for n
    unfolding sols by (rule sort_key_stable)
  ultimately show "\<exists>found. discovered (final_specification spec FIND_ALL_SOLUTIONS) FIND_ALL_SOLUTIONS
                     = Inr found
            \<and> mset solutions = mset found
            \<and> (\<forall>n. filter (\<lambda>sol. length (Solution.steps sol) = n) solutions
                   = filter (\<lambda>sol. length (Solution.steps sol) = n) found)"
    using found by blast
next
  assume "solve spec FIND_FIRST_SOLUTION = Inr solutions"
  then obtain search_stack found where
    "search_loop (final_specification spec FIND_FIRST_SOLUTION) FIND_FIRST_SOLUTION search_stack []
       = Inr found"
    and sols: "solutions = sort_key (\<lambda>sol. length (Solution.steps sol)) found"
    by (auto simp: solve_final_specification solve_internal_def split: sum.splits)
  from search_loop_first[OF this(1)] show "length solutions \<le> 1"
    by (simp add: sols)
qed

theorem solve_ordering_witness:
  "solve scenario_order FIND_ALL_SOLUTIONS = Inr [solution_short, solution_long]
   \<and> discovered (final_specification scenario_order FIND_ALL_SOLUTIONS) FIND_ALL_SOLUTIONS
       = Inr [solution_long, solution_short]
   \<and> sorted (map (\<lambda>sol. length (Solution.steps sol)) [solution_short, solution_long])
   \<and> solve scenario_order FIND_FIRST_SOLUTION = Inr [solution_long]
   \<and> length [solution_long] \<le> 1"
  using solve_ordering[of scenario_order "[solution_short, solution_long]"]
    solve_ordering[of scenario_order "[solution_long]"]
    solve_scenario_order discovered_scenario_order solve_scenario_order_first
  by simp

subsection \<open>Relaxation\<close>

text \<open>A specification on which the search raises: its only sequence is empty.\<close>

definition scenario_empty_sequence :: GameSpecification where
  "scenario_empty_sequence =
     \<lparr>code_matrix = \<lparr>CodeMatrix.cells = [[''BD'', ''55''], [''E9'', ''1C'']]\<rparr>,
      upload_sequences = [\<lparr>UploadSequence.cells = [], priority = 1\<rparr>],
      buffer_size = 2\<rparr>"

lemma solve_internal_updated_scenario_relax:
  "solve_internal (updated_spec scenario_relax) FIND_ALL_SOLUTIONS = Inr [solution_A]"
  by code_simp

lemma solve_internal_scenario_empty_sequence:
  "solve_internal scenario_empty_sequence FIND_ALL_SOLUTIONS = Inl IndexError"
  by code_simp

text \<open>
  C8: \<^const>\<open>solve\<close> returns the solutions of the search when there are any, and passes on
  an exception of the search. When the search on a specification finds nothing and its
  sequences carry more than one distinct priority, \<^const>\<open>solve\<close> returns what it returns on
  the relaxed specification: the same matrix and buffer size, and as sequences those of
  priority strictly above the least priority present, in their original order, so with
  fewer distinct priorities. When the search finds nothing and at most one distinct
  priority is present, \<^const>\<open>solve\<close> returns the empty list. Together the four cases fix
  the result of \<^const>\<open>solve\<close> on every input by the results of the search on the
  specification and on its successive relaxations.
\<close>

theorem solve_relaxation:
  "(solve_internal spec strategy = Inr solutions \<and> solutions \<noteq> []
      \<longrightarrow> solve spec strategy = Inr solutions)
   \<and> (solve_internal spec strategy = Inr []
        \<and> 1 < card (priority ` set (upload_sequences spec))
      \<longrightarrow> solve spec strategy = solve (updated_spec spec) strategy
          \<and> upload_sequences (updated_spec spec)
              = filter (\<lambda>sequence. Min (priority ` set (upload_sequences spec)) < priority sequence)
                  (upload_sequences spec)
          \<and> code_matrix (updated_spec spec) = code_matrix spec
          \<and> buffer_size (updated_spec spec) = buffer_size spec
          \<and> card (priority ` set (upload_sequences (updated_spec spec)))
              < card (priority ` set (upload_sequences spec)))
   \<and> (solve_internal spec strategy = Inr []
        \<and> card (priority ` set (upload_sequences spec)) \<le> 1
      \<longrightarrow> solve spec strategy = Inr [])
   \<and> (solve_internal spec strategy = Inl e \<longrightarrow> solve spec strategy = Inl e)"
proof (intro conjI impI)
  assume "solve_internal spec strategy = Inr solutions \<and> solutions \<noteq> []"
  then show "solve spec strategy = Inr solutions"
    by (subst solve.simps) simp
next
  assume a: "solve_internal spec strategy = Inr []
        \<and> 1 < card (priority ` set (upload_sequences spec))"
  then have ne: "upload_sequences spec \<noteq> []" by auto
  from a show "solve spec strategy = solve (updated_spec spec) strategy"
    by (subst solve.simps) (simp add: unique_priorities_card)
  show "upload_sequences (updated_spec spec)
          = filter (\<lambda>sequence. Min (priority ` set (upload_sequences spec)) < priority sequence)
              (upload_sequences spec)"
    by (simp add: updated_spec_def higher_priority_sequences_def unique_priorities_Min[OF ne])
  show "code_matrix (updated_spec spec) = code_matrix spec"
    and "buffer_size (updated_spec spec) = buffer_size spec"
    by (simp_all add: updated_spec_def)
  from a have "1 < length (unique_priorities spec)"
    by (simp add: unique_priorities_card)
  from unique_priorities_decrease[OF this]
  show "card (priority ` set (upload_sequences (updated_spec spec)))
          < card (priority ` set (upload_sequences spec))"
    by (simp add: unique_priorities_card)
next
  assume "solve_internal spec strategy = Inr []
        \<and> card (priority ` set (upload_sequences spec)) \<le> 1"
  then show "solve spec strategy = Inr []"
    by (subst solve.simps) (simp add: unique_priorities_card)
next
  assume "solve_internal spec strategy = Inl e"
  then show "solve spec strategy = Inl e"
    by (subst solve.simps) simp
qed

theorem solve_relaxation_witness:
  "solve_internal scenario_relax FIND_ALL_SOLUTIONS = Inr []
   \<and> card (priority ` set (upload_sequences scenario_relax)) = 2
   \<and> upload_sequences (updated_spec scenario_relax)
       = [\<lparr>UploadSequence.cells = [''55'', ''1C''], priority = 2\<rparr>]
   \<and> solve_internal (updated_spec scenario_relax) FIND_ALL_SOLUTIONS = Inr [solution_A]
   \<and> solve (updated_spec scenario_relax) FIND_ALL_SOLUTIONS = Inr [solution_A]
   \<and> solve scenario_relax FIND_ALL_SOLUTIONS = Inr [solution_A]
   \<and> solve_internal scenario_B FIND_ALL_SOLUTIONS = Inr []
   \<and> card (priority ` set (upload_sequences scenario_B)) = 1
   \<and> solve scenario_B FIND_ALL_SOLUTIONS = Inr []
   \<and> solve_internal scenario_empty_sequence FIND_ALL_SOLUTIONS = Inl IndexError
   \<and> solve scenario_empty_sequence FIND_ALL_SOLUTIONS = Inl IndexError"
proof -
  have two: "card (priority ` set (upload_sequences scenario_relax)) = 2"
    by (simp add: scenario_relax_def)
  have one: "card (priority ` set (upload_sequences scenario_B)) = 1"
    by (simp add: scenario_B_def)
  have relaxed: "solve (updated_spec scenario_relax) FIND_ALL_SOLUTIONS = Inr [solution_A]"
    using solve_relaxation[of "updated_spec scenario_relax" FIND_ALL_SOLUTIONS "[solution_A]"]
      solve_internal_updated_scenario_relax
    by simp
  have retry: "solve scenario_relax FIND_ALL_SOLUTIONS
                 = solve (updated_spec scenario_relax) FIND_ALL_SOLUTIONS"
    and seqs: "upload_sequences (updated_spec scenario_relax)
                 = filter (\<lambda>sequence. Min (priority ` set (upload_sequences scenario_relax))
                                        < priority sequence)
                     (upload_sequences scenario_relax)"
    using solve_relaxation[of scenario_relax FIND_ALL_SOLUTIONS]
      solve_internal_scenario_relax two
    by simp_all
  have kept: "upload_sequences (updated_spec scenario_relax)
                = [\<lparr>UploadSequence.cells = [''55'', ''1C''], priority = 2\<rparr>]"
    unfolding seqs by (simp add: scenario_relax_def)
  have none: "solve scenario_B FIND_ALL_SOLUTIONS = Inr []"
    using solve_relaxation[of scenario_B FIND_ALL_SOLUTIONS]
      solve_internal_scenario_B one
    by simp
  have raised: "solve scenario_empty_sequence FIND_ALL_SOLUTIONS = Inl IndexError"
    using solve_relaxation[of scenario_empty_sequence FIND_ALL_SOLUTIONS _ IndexError]
      solve_internal_scenario_empty_sequence
    by simp
  from two one relaxed retry kept none raised show ?thesis
    by (simp add: solve_internal_scenario_relax solve_internal_updated_scenario_relax
          solve_internal_scenario_B solve_internal_scenario_empty_sequence)
qed

subsection \<open>Properties of the search states\<close>

text \<open>States of the run on the first test input.\<close>

definition seed_55 :: SearchStackItem where
  "seed_55 = \<lparr>SearchStackItem.steps = [(\<lparr>value = ''55'', row_idx = 0, col_idx = 1\<rparr>, 0)],
              current_step = \<lparr>value = ''55'', row_idx = 0, col_idx = 1\<rparr>,
              incomplete_sequence_length = [1], next_pick_direction = COLUMN\<rparr>"

definition child_1C :: SearchStackItem where
  "child_1C = \<lparr>SearchStackItem.steps = [(\<lparr>value = ''55'', row_idx = 0, col_idx = 1\<rparr>, 0),
                                         (\<lparr>value = ''1C'', row_idx = 1, col_idx = 1\<rparr>, 1)],
              current_step = \<lparr>value = ''1C'', row_idx = 1, col_idx = 1\<rparr>,
              incomplete_sequence_length = [0], next_pick_direction = ROW\<rparr>"

text \<open>
  A matrix whose first column repeats the first cell of the sequence: the path down the
  first column and along the second row reads \<open>1C 1C 55\<close>.
\<close>

definition scenario_reset :: GameSpecification where
  "scenario_reset =
     \<lparr>code_matrix = \<lparr>CodeMatrix.cells = [[''1C'', ''BD''], [''1C'', ''55'']]\<rparr>,
      upload_sequences = [\<lparr>UploadSequence.cells = [''1C'', ''55''], priority = 1\<rparr>],
      buffer_size = 4\<rparr>"

definition reset_1 :: SearchStackItem where
  "reset_1 = \<lparr>SearchStackItem.steps = [(\<lparr>value = ''1C'', row_idx = 0, col_idx = 0\<rparr>, 0)],
              current_step = \<lparr>value = ''1C'', row_idx = 0, col_idx = 0\<rparr>,
              incomplete_sequence_length = [1], next_pick_direction = COLUMN\<rparr>"

definition reset_2 :: SearchStackItem where
  "reset_2 = \<lparr>SearchStackItem.steps = [(\<lparr>value = ''1C'', row_idx = 0, col_idx = 0\<rparr>, 0),
                                        (\<lparr>value = ''1C'', row_idx = 1, col_idx = 0\<rparr>, 1)],
              current_step = \<lparr>value = ''1C'', row_idx = 1, col_idx = 0\<rparr>,
              incomplete_sequence_length = [2], next_pick_direction = ROW\<rparr>"

definition reset_3 :: SearchStackItem where
  "reset_3 = \<lparr>SearchStackItem.steps = [(\<lparr>value = ''1C'', row_idx = 0, col_idx = 0\<rparr>, 0),
                                        (\<lparr>value = ''1C'', row_idx = 1, col_idx = 0\<rparr>, 1),
                                        (\<lparr>value = ''55'', row_idx = 1, col_idx = 1\<rparr>, 2)],
              current_step = \<lparr>value = ''55'', row_idx = 1, col_idx = 1\<rparr>,
              incomplete_sequence_length = [2], next_pick_direction = COLUMN\<rparr>"

lemma initial_search_stack_scenario_A:
  "initial_search_stack scenario_A = Inr [seed_55, seed_BD]"
  by code_simp

lemma next_search_points_seed_55:
  "next_search_points scenario_A seed_55 = Inr [child_1C]"
  by code_simp

lemma reachable_seed_55: "reachable scenario_A seed_55"
  by (rule reachable.seed[OF initial_search_stack_scenario_A]) simp

lemma initial_search_stack_scenario_reset:
  "initial_search_stack scenario_reset =
     Inr [\<lparr>SearchStackItem.steps = [(\<lparr>value = ''BD'', row_idx = 0, col_idx = 1\<rparr>, 0)],
           current_step = \<lparr>value = ''BD'', row_idx = 0, col_idx = 1\<rparr>,
           incomplete_sequence_length = [2], next_pick_direction = COLUMN\<rparr>, reset_1]"
  by code_simp

lemma next_search_points_reset_1:
  "next_search_points scenario_reset reset_1 = Inr [reset_2]"
  by code_simp

lemma next_search_points_reset_2:
  "next_search_points scenario_reset reset_2 = Inr [reset_3]"
  by code_simp

lemma reachable_reset_1: "reachable scenario_reset reset_1"
  by (rule reachable.seed[OF initial_search_stack_scenario_reset]) simp

lemma reachable_reset_2: "reachable scenario_reset reset_2"
proof (rule reachable.child[OF reachable_reset_1 _ _ _ next_search_points_reset_1])
  show "sum_list (incomplete_sequence_length reset_1) \<noteq> 0"
    by (simp add: reset_1_def)
  show "py_max (incomplete_sequence_length reset_1) = Inr 1"
    by (simp add: reset_1_def py_max_def)
  show "\<not> buffer_size scenario_reset - int (length (SearchStackItem.steps reset_1)) < 1"
    by (simp add: reset_1_def scenario_reset_def)
qed simp

lemma reachable_reset_3: "reachable scenario_reset reset_3"
proof (rule reachable.child[OF reachable_reset_2 _ _ _ next_search_points_reset_2])
  show "sum_list (incomplete_sequence_length reset_2) \<noteq> 0"
    by (simp add: reset_2_def)
  show "py_max (incomplete_sequence_length reset_2) = Inr 2"
    by (simp add: reset_2_def py_max_def)
  show "\<not> buffer_size scenario_reset - int (length (SearchStackItem.steps reset_2)) < 2"
    by (simp add: reset_2_def scenario_reset_def)
qed simp

text \<open>
  C3 (progress rule): a state appended for a reachable parent extends the parent's path by
  its own current step, and its counter for every sequence \<open>i\<close> is the value of the
  specification's rule at the parent's counter and the value \<open>v\<close> of that step: 0 if the
  parent's counter \<open>r\<close> is 0, \<open>r - 1\<close> if cell \<open>len - r\<close> of the sequence is \<open>v\<close>, and the
  length of the sequence otherwise. The counters of a seeded state are the values of the
  same rule at \<open>r = len\<close> and the value of the seeded cell.
\<close>

theorem counters_follow_progress_rule:
  "(reachable spec parent \<and> next_search_points spec parent = Inr children
      \<and> child \<in> set children \<and> i < length (upload_sequences spec)
    \<longrightarrow> path child = path parent @ [current_step child]
        \<and> length (incomplete_sequence_length child) = length (upload_sequences spec)
        \<and> incomplete_sequence_length child ! i
            = progress_rule (UploadSequence.cells (upload_sequences spec ! i))
                (incomplete_sequence_length parent ! i) (value (current_step child)))
   \<and> (initial_search_stack spec = Inr search_stack \<and> item \<in> set search_stack
      \<and> i < length (upload_sequences spec)
    \<longrightarrow> path item = [current_step item]
        \<and> length (incomplete_sequence_length item) = length (upload_sequences spec)
        \<and> incomplete_sequence_length item ! i
            = progress_rule (UploadSequence.cells (upload_sequences spec ! i))
                (int (length (UploadSequence.cells (upload_sequences spec ! i))))
                (value (current_step item)))"
proof (intro conjI impI)
  assume a: "reachable spec parent \<and> next_search_points spec parent = Inr children
      \<and> child \<in> set children \<and> i < length (upload_sequences spec)"
  then have parent: "reachable spec parent" and i: "i < length (upload_sequences spec)"
    and children: "next_search_points spec parent = Inr children" "child \<in> set children"
    by simp_all
  from reachable_counters_ok[OF parent]
  have len: "length (incomplete_sequence_length parent) = length (upload_sequences spec)"
    and range: "\<And>i. i < length (upload_sequences spec) \<Longrightarrow>
        0 \<le> incomplete_sequence_length parent ! i
        \<and> incomplete_sequence_length parent ! i
            \<le> int (length (UploadSequence.cells (upload_sequences spec ! i)))"
    by (simp_all add: counters_ok_nth counter_ok_def)
  from children obtain next_step lens where
    lens: "comprehend (next_incomplete_length (value next_step))
             (zip (upload_sequences spec) (incomplete_sequence_length parent)) = Inr lens"
    and child: "child = \<lparr>SearchStackItem.steps =
                 SearchStackItem.steps parent @ [(next_step, length (SearchStackItem.steps parent))],
               current_step = next_step,
               incomplete_sequence_length = lens,
               next_pick_direction = flip_direction (next_pick_direction parent)\<rparr>"
    by (rule next_search_points_child)
  note cc = child_counters[OF lens len range]
  show "path child = path parent @ [current_step child]"
    by (simp add: child path_def)
  show "length (incomplete_sequence_length child) = length (upload_sequences spec)"
    using cc(1) by (simp add: child)
  show "incomplete_sequence_length child ! i
            = progress_rule (UploadSequence.cells (upload_sequences spec ! i))
                (incomplete_sequence_length parent ! i) (value (current_step child))"
    using cc(2)[of i] i by (simp add: child)
next
  assume a: "initial_search_stack spec = Inr search_stack \<and> item \<in> set search_stack
      \<and> i < length (upload_sequences spec)"
  then have i: "i < length (upload_sequences spec)"
    and stack: "initial_search_stack spec = Inr search_stack" "item \<in> set search_stack"
    by simp_all
  from stack obtain c v lens where
    lens: "comprehend (initial_incomplete_length v) (upload_sequences spec) = Inr lens"
    and item: "item = \<lparr>SearchStackItem.steps = [(\<lparr>value = v, row_idx = 0, col_idx = c\<rparr>, 0)],
              current_step = \<lparr>value = v, row_idx = 0, col_idx = c\<rparr>,
              incomplete_sequence_length = lens,
              next_pick_direction = COLUMN\<rparr>"
    by (rule initial_search_stack_item)
  note sc = seed_counters[OF lens]
  show "path item = [current_step item]"
    by (simp add: item path_def)
  show "length (incomplete_sequence_length item) = length (upload_sequences spec)"
    using sc(1) by (simp add: item)
  show "incomplete_sequence_length item ! i
            = progress_rule (UploadSequence.cells (upload_sequences spec ! i))
                (int (length (UploadSequence.cells (upload_sequences spec ! i))))
                (value (current_step item))"
    using sc(3)[OF i] by (simp add: item)
qed

theorem counters_follow_progress_rule_witness:
  "next_search_points scenario_A seed_55 = Inr [child_1C]
   \<and> incomplete_sequence_length seed_55 ! 0 = 1
   \<and> incomplete_sequence_length child_1C ! 0 = progress_rule [''55'', ''1C''] 1 ''1C''
   \<and> progress_rule [''55'', ''1C''] 1 ''1C'' = 0
   \<and> initial_search_stack scenario_A = Inr [seed_55, seed_BD]
   \<and> incomplete_sequence_length seed_BD ! 0 = progress_rule [''55'', ''1C''] 2 ''BD''
   \<and> progress_rule [''55'', ''1C''] 2 ''BD'' = 2"
  using counters_follow_progress_rule[where spec = scenario_A and parent = seed_55
      and children = "[child_1C]" and child = child_1C and i = 0
      and search_stack = "[seed_55, seed_BD]" and item = seed_BD]
    reachable_seed_55 next_search_points_seed_55 initial_search_stack_scenario_A
  by (simp add: scenario_A_def seed_55_def child_1C_def seed_BD_def progress_rule_def)

text \<open>
  What the code keeps of the invariant of the counters: in every reachable state the
  counter of every sequence lies between 0 and the length of the sequence, and a counter
  that is 0 means that the values of the path contain the sequence as a contiguous run.
\<close>

lemma counter_range_and_completion:
  assumes "reachable spec item" and "i < length (upload_sequences spec)"
  shows "0 \<le> incomplete_sequence_length item ! i
       \<and> incomplete_sequence_length item ! i
           \<le> int (length (UploadSequence.cells (upload_sequences spec ! i)))
       \<and> (incomplete_sequence_length item ! i = 0
            \<longrightarrow> sublist (UploadSequence.cells (upload_sequences spec ! i)) (map value (path item)))"
  using reachable_counters_ok[OF assms(1)] assms(2)
  by (simp add: counters_ok_nth counter_ok_def)

lemma solve_scenario_reset:
  "solve scenario_reset FIND_ALL_SOLUTIONS = Inr []"
  by code_simp

text \<open>
  C4 (the counter is 0 exactly when the path contains the sequence): the code breaks the
  direction from the path to the counter. On the matrix above, with the sequence
  \<open>1C 55\<close> and a buffer of 4, the search constructs the state with the path
  \<open>(0,0), (1,0), (1,1)\<close>. The path starts in row 0, goes down column 0 and along row 1,
  visits no cell twice, fits the buffer, and reads \<open>1C 1C 55\<close>, which contains the sequence;
  yet the counter of the sequence is 2 and not 0. The second \<open>1C\<close> is not the expected
  \<open>55\<close>, so the counter is reset to the length of the sequence, and, unlike the first cell
  of a path, the mismatching \<open>1C\<close> is not compared with the first cell of the sequence.
  The state is then abandoned, and \<^const>\<open>solve\<close> returns no solution for an input that has
  one.
\<close>

theorem counter_not_zero_although_satisfied:
  "reachable scenario_reset reset_3
   \<and> path reset_3 = [\<lparr>value = ''1C'', row_idx = 0, col_idx = 0\<rparr>,
                     \<lparr>value = ''1C'', row_idx = 1, col_idx = 0\<rparr>,
                     \<lparr>value = ''55'', row_idx = 1, col_idx = 1\<rparr>]
   \<and> distinct (path reset_3)
   \<and> int (length (path reset_3)) \<le> buffer_size scenario_reset
   \<and> sublist (UploadSequence.cells (upload_sequences scenario_reset ! 0)) (map value (path reset_3))
   \<and> incomplete_sequence_length reset_3 ! 0 = 2
   \<and> solve scenario_reset FIND_ALL_SOLUTIONS = Inr []"
proof -
  have "map value (path reset_3) = [''1C''] @ [''1C'', ''55''] @ []"
    by (simp add: reset_3_def path_def)
  then have "sublist [''1C'', ''55''] (map value (path reset_3))"
    unfolding sublist_def by blast
  then show ?thesis
    using reachable_reset_3 solve_scenario_reset
    by (simp add: scenario_reset_def reset_3_def path_def)
qed

subsection \<open>A specification without upload sequences\<close>

text \<open>The one-step solution that starts and ends at a cell of row 0.\<close>

definition single_step_solution :: "nat \<times> CellValueType \<Rightarrow> Solution" where
  "single_step_solution = (\<lambda>(col_idx, cell_value).
     \<lparr>Solution.steps = [\<lparr>value = cell_value, row_idx = 0, col_idx = col_idx\<rparr>]\<rparr>)"

definition row_0_solutions :: "GameSpecification \<Rightarrow> Solution list" where
  "row_0_solutions spec =
     map single_step_solution (enumerate 0 (CodeMatrix.cells (code_matrix spec) ! 0))"

definition bare_seed :: "nat \<times> CellValueType \<Rightarrow> SearchStackItem" where
  "bare_seed = (\<lambda>(col_idx, cell_value).
     \<lparr>SearchStackItem.steps = [(\<lparr>value = cell_value, row_idx = 0, col_idx = col_idx\<rparr>, 0)],
      current_step = \<lparr>value = cell_value, row_idx = 0, col_idx = col_idx\<rparr>,
      incomplete_sequence_length = [],
      next_pick_direction = COLUMN\<rparr>)"

lemma initial_search_stack_no_sequences:
  assumes "upload_sequences spec = []" and "CodeMatrix.cells (code_matrix spec) \<noteq> []"
  shows "initial_search_stack spec
           = Inr (rev (map bare_seed (enumerate 0 (CodeMatrix.cells (code_matrix spec) ! 0))))"
proof -
  let ?row = "enumerate 0 (CodeMatrix.cells (code_matrix spec) ! 0)"
  have row: "iterate_row (code_matrix spec) 0 = Inr ?row"
    using assms(2) by (simp add: iterate_row_def)
  have "initial_stack_item spec x = Inr (bare_seed x)" for x
    using assms(1) by (cases x) (simp add: initial_stack_item_def bare_seed_def)
  then have "list_all2 (\<lambda>x y. initial_stack_item spec x = Inr y) ?row (map bare_seed ?row)"
    by (simp add: list_all2_conv_all_nth)
  then have "comprehend (initial_stack_item spec) ?row = Inr (map bare_seed ?row)"
    by (rule comprehend_complete)
  with row show ?thesis by (simp add: initial_search_stack_def)
qed

lemma make_solution_bare_seed: "make_solution (bare_seed x) = single_step_solution x"
  by (cases x) (simp add: make_solution_def bare_seed_def single_step_solution_def)

lemma search_loop_all_accepted:
  "search_loop spec FIND_ALL_SOLUTIONS (map bare_seed xs) solutions
     = Inr (solutions @ map single_step_solution xs)"
proof (induction xs arbitrary: solutions)
  case Nil
  show ?case by simp
next
  case (Cons x xs)
  have "incomplete_sequence_length (bare_seed x) = []"
    by (cases x) (simp add: bare_seed_def)
  then show ?case
    by (simp add: Cons.IH make_solution_bare_seed)
qed

lemma search_loop_first_accepted:
  "search_loop spec FIND_FIRST_SOLUTION (map bare_seed xs) solutions
     = Inr (solutions @ take 1 (map single_step_solution xs))"
proof (cases xs)
  case Nil
  then show ?thesis by simp
next
  case (Cons x ys)
  have "incomplete_sequence_length (bare_seed x) = []"
    by (cases x) (simp add: bare_seed_def)
  then show ?thesis
    by (simp add: Cons make_solution_bare_seed)
qed

lemma sort_single_steps:
  "sort_key (\<lambda>sol. length (Solution.steps sol)) (map single_step_solution xs)
     = map single_step_solution xs"
proof (rule sort_key_id_if_sorted)
  have "map (\<lambda>sol. length (Solution.steps sol)) (map single_step_solution xs)
          = replicate (length xs) 1"
    by (induction xs) (auto simp: single_step_solution_def)
  then show "sorted (map (\<lambda>sol. length (Solution.steps sol)) (map single_step_solution xs))"
    by (simp add: sorted_replicate)
qed

lemma solve_internal_no_sequences:
  assumes "upload_sequences spec = []" and "CodeMatrix.cells (code_matrix spec) \<noteq> []"
  shows "solve_internal spec FIND_ALL_SOLUTIONS = Inr (rev (row_0_solutions spec))"
    and "solve_internal spec FIND_FIRST_SOLUTION = Inr (take 1 (rev (row_0_solutions spec)))"
proof -
  let ?row = "enumerate 0 (CodeMatrix.cells (code_matrix spec) ! 0)"
  have stack: "initial_search_stack spec = Inr (map bare_seed (rev ?row))"
    using initial_search_stack_no_sequences[OF assms] by (simp add: rev_map)
  have sols: "rev (row_0_solutions spec) = map single_step_solution (rev ?row)"
    by (simp add: row_0_solutions_def rev_map)
  show "solve_internal spec FIND_ALL_SOLUTIONS = Inr (rev (row_0_solutions spec))"
    unfolding solve_internal_def stack sols
    by (simp add: search_loop_all_accepted sort_single_steps)
  have "take 1 (map single_step_solution (rev ?row)) = map single_step_solution (take 1 (rev ?row))"
    by (simp add: take_map)
  then show "solve_internal spec FIND_FIRST_SOLUTION = Inr (take 1 (rev (row_0_solutions spec)))"
    unfolding solve_internal_def stack sols
    by (simp add: search_loop_first_accepted sort_single_steps)
qed

lemma solve_no_relaxation:
  assumes "upload_sequences spec = []"
  shows "solve spec strategy = solve_internal spec strategy"
  using assms
  by (subst solve.simps) (simp add: unique_priorities_def split: sum.splits)

definition scenario_no_sequences :: GameSpecification where
  "scenario_no_sequences =
     \<lparr>code_matrix = \<lparr>CodeMatrix.cells = [[''BD'', ''55''], [''E9'', ''1C'']]\<rparr>,
      upload_sequences = [],
      buffer_size = 2\<rparr>"

text \<open>
  C10: for a specification with no upload sequences and a square matrix (at least one
  row, every row as long as the matrix has rows, as \<^verbatim>\<open>CodeMatrix\<close> documents),
  \<^const>\<open>solve\<close> raises no error. Under \<^const>\<open>FIND_ALL_SOLUTIONS\<close> it returns exactly
  \<^verbatim>\<open>size\<close> solutions, one for each column \<open>c\<close>, the single step at the cell of row 0
  and column \<open>c\<close>. Under \<^const>\<open>FIND_FIRST_SOLUTION\<close> it returns a list of one of these
  single-step solutions (the one of the last column, which is popped first).
\<close>

theorem solve_no_sequences:
  assumes "upload_sequences spec = []"
    and "square_rows (CodeMatrix.cells (code_matrix spec))"
  shows "solve spec FIND_ALL_SOLUTIONS = Inr (rev (row_0_solutions spec))
       \<and> length (rev (row_0_solutions spec)) = CodeMatrix_size (code_matrix spec)
       \<and> (\<forall>c < CodeMatrix_size (code_matrix spec).
             row_0_solutions spec ! c
               = \<lparr>Solution.steps = [\<lparr>value = CodeMatrix.cells (code_matrix spec) ! 0 ! c,
                                      row_idx = 0, col_idx = c\<rparr>]\<rparr>)
       \<and> solve spec FIND_FIRST_SOLUTION = Inr [last (row_0_solutions spec)]
       \<and> last (row_0_solutions spec) \<in> set (rev (row_0_solutions spec))"
proof -
  let ?cells = "CodeMatrix.cells (code_matrix spec)"
  from assms(2) have ne: "?cells \<noteq> []"
    and rows: "\<And>row. row \<in> set ?cells \<Longrightarrow> length row = length ?cells"
    by (simp_all add: square_rows_def list_all_iff)
  from ne have "?cells ! 0 \<in> set ?cells" by simp
  then have row0: "length (?cells ! 0) = length ?cells" by (rule rows)
  have len: "length (row_0_solutions spec) = CodeMatrix_size (code_matrix spec)"
    by (simp add: row_0_solutions_def CodeMatrix_size_def row0)
  with ne have sols_ne: "row_0_solutions spec \<noteq> []"
    by (auto simp: CodeMatrix_size_def)
  have all: "solve spec FIND_ALL_SOLUTIONS = Inr (rev (row_0_solutions spec))"
    using assms(1) ne by (simp add: solve_no_relaxation solve_internal_no_sequences)
  have "take 1 (rev (row_0_solutions spec)) = [last (row_0_solutions spec)]"
    using sols_ne by (cases "row_0_solutions spec" rule: rev_cases) simp_all
  then have first: "solve spec FIND_FIRST_SOLUTION = Inr [last (row_0_solutions spec)]"
    using assms(1) ne by (simp add: solve_no_relaxation solve_internal_no_sequences)
  have nth: "row_0_solutions spec ! c
               = \<lparr>Solution.steps = [\<lparr>value = ?cells ! 0 ! c, row_idx = 0, col_idx = c\<rparr>]\<rparr>"
    if "c < CodeMatrix_size (code_matrix spec)" for c
    using that
    by (simp add: row_0_solutions_def single_step_solution_def nth_enumerate_eq
          CodeMatrix_size_def row0)
  from all len nth first sols_ne show ?thesis by simp
qed

theorem solve_no_sequences_witness:
  "square_rows (CodeMatrix.cells (code_matrix scenario_no_sequences))
   \<and> CodeMatrix_size (code_matrix scenario_no_sequences) = 2
   \<and> solve scenario_no_sequences FIND_ALL_SOLUTIONS
     = Inr [\<lparr>Solution.steps = [\<lparr>value = ''55'', row_idx = 0, col_idx = 1\<rparr>]\<rparr>,
            \<lparr>Solution.steps = [\<lparr>value = ''BD'', row_idx = 0, col_idx = 0\<rparr>]\<rparr>]
   \<and> solve scenario_no_sequences FIND_FIRST_SOLUTION
     = Inr [\<lparr>Solution.steps = [\<lparr>value = ''55'', row_idx = 0, col_idx = 1\<rparr>]\<rparr>]"
proof -
  have sq: "square_rows (CodeMatrix.cells (code_matrix scenario_no_sequences))"
    by (simp add: scenario_no_sequences_def square_rows_def)
  have none: "upload_sequences scenario_no_sequences = []"
    by (simp add: scenario_no_sequences_def)
  have sols: "row_0_solutions scenario_no_sequences
      = [\<lparr>Solution.steps = [\<lparr>value = ''BD'', row_idx = 0, col_idx = 0\<rparr>]\<rparr>,
         \<lparr>Solution.steps = [\<lparr>value = ''55'', row_idx = 0, col_idx = 1\<rparr>]\<rparr>]"
    by (simp add: scenario_no_sequences_def row_0_solutions_def single_step_solution_def
          enumerate_eq_zip upt_rec)
  from solve_no_sequences[OF none sq] sq show ?thesis
    by (simp add: sols)
qed

end
